theory Spec2Isabelle
  imports Main "HOL-Library.Word"
begin

section \<open>The slot map of fiv.hpp\<close>

text \<open>
  The container \<open>fiv::Vector<T>\<close> keeps four \<open>std::vector\<close>s. They are lists here, a
  \<open>size_t\<close> is a natural number (a vector's length is always below \<open>2 ^ 64\<close>), and the
  one place where the source subtracts sizes, the subtraction wraps as it does in C++
  (\<open>size_sub\<close>). Indexing a vector outside its range, \<open>back()\<close> and \<open>pop_back()\<close> on an
  empty vector are undefined behaviour in C++: every such access is the result
  \<open>Inl OutOfBounds\<close>. The exception thrown by \<open>get\<close> is \<open>Inl (InvalidArgument msg)\<close>,
  and \<open>LengthError\<close> is the \<open>std::length_error\<close> of \<open>std::vector::reserve\<close>.
\<close>

datatype ID = ID (ID_value: nat)

datatype error = OutOfBounds | InvalidArgument string | LengthError

record 'a Vector =
  m_KeepOrder :: bool
  m_Data :: "'a list"
  m_IDs :: "nat list"
  m_RevIDs :: "ID list"
  m_FreeIDSlots :: "ID list"

definition SIZE_MAX :: nat where
  "SIZE_MAX = 2 ^ 64 - 1"

definition invalidID :: ID where
  "invalidID = ID SIZE_MAX"

definition isInvalid :: "ID \<Rightarrow> bool" where
  "isInvalid h = (ID_value h = SIZE_MAX)"

text \<open>Subtraction of two \<open>size_t\<close> values: modulo \<open>2 ^ 64\<close>.\<close>

definition size_sub :: "nat \<Rightarrow> nat \<Rightarrow> nat" where
  "size_sub a b = (if b \<le> a then a - b else a + 2 ^ 64 - b)"

text \<open>The constructors \<open>Vector()\<close> and \<open>Vector(bool keepOrder)\<close>.\<close>

definition Vector_new :: "bool \<Rightarrow> 'a Vector" where
  "Vector_new keepOrder =
     \<lparr>m_KeepOrder = keepOrder, m_Data = [], m_IDs = [], m_RevIDs = [], m_FreeIDSlots = []\<rparr>"

definition Vector_default :: "'a Vector" where
  "Vector_default = Vector_new True"

text \<open>
  \<open>std::vector::reserve(n)\<close> throws \<open>std::length_error\<close> when \<open>n\<close> is greater than the
  vector's \<open>max_size()\<close>, and otherwise changes its capacity only, never its length or
  its elements. \<open>max_size()\<close> is fixed by the standard library and the element type, not
  by this source: \<open>limits\<close> holds it for the three vectors that \<open>reserve\<close> touches. An
  allocation within \<open>max_size()\<close> is taken to succeed.
\<close>

record limits =
  data_max_size :: nat
  ids_max_size :: nat
  rev_max_size :: nat

text \<open>The amount \<open>reserve\<close> asks for the slot table: \<open>numElements - m_FreeIDSlots.size()\<close>.\<close>

definition ids_reserve_request :: "'a Vector \<Rightarrow> nat \<Rightarrow> nat" where
  "ids_reserve_request v numElements = size_sub numElements (length (m_FreeIDSlots v))"

text \<open>
  \<open>reserve\<close> makes its three calls in the order of the source and stops at the first
  that throws. Its result says what was thrown, if anything, lists the amounts of the
  calls that were made, and gives the container afterwards.
\<close>

record 'a reserve_result =
  thrown :: "error option"
  requests :: "nat list"
  container :: "'a Vector"

definition reserve :: "limits \<Rightarrow> 'a Vector \<Rightarrow> nat \<Rightarrow> 'a reserve_result" where
  "reserve lim v numElements =
     (if data_max_size lim < numElements then
        \<lparr>thrown = Some LengthError, requests = [numElements], container = v\<rparr>
      else if ids_max_size lim < ids_reserve_request v numElements then
        \<lparr>thrown = Some LengthError,
         requests = [numElements, ids_reserve_request v numElements], container = v\<rparr>
      else if rev_max_size lim < numElements then
        \<lparr>thrown = Some LengthError,
         requests = [numElements, ids_reserve_request v numElements, numElements],
         container = v\<rparr>
      else
        \<lparr>thrown = None,
         requests = [numElements, ids_reserve_request v numElements, numElements],
         container = v\<rparr>)"

definition addID :: "'a Vector \<Rightarrow> ID \<Rightarrow> error + ('a Vector \<times> ID)" where
  "addID v location =
     (if m_FreeIDSlots v \<noteq> [] then
        (let idIndex = last (m_FreeIDSlots v);
             v1 = v\<lparr>m_FreeIDSlots := butlast (m_FreeIDSlots v)\<rparr>
         in if ID_value idIndex < length (m_IDs v1)
            then Inr (v1\<lparr>m_IDs := (m_IDs v1)[ID_value idIndex := ID_value location]\<rparr>, idIndex)
            else Inl OutOfBounds)
      else
        Inr (v\<lparr>m_IDs := m_IDs v @ [ID_value location]\<rparr>, ID (length (m_IDs v))))"

definition swapDataLocation :: "'a Vector \<Rightarrow> ID \<Rightarrow> ID \<Rightarrow> error + 'a Vector" where
  "swapDataLocation v el1 el2 =
     (if ID_value el1 < length (m_IDs v) \<and> ID_value el2 < length (m_IDs v) then
        (let idx1 = m_IDs v ! ID_value el1;
             idx2 = m_IDs v ! ID_value el2
         in if idx1 < length (m_Data v) \<and> idx2 < length (m_Data v) \<and>
               idx1 < length (m_RevIDs v) \<and> idx2 < length (m_RevIDs v)
            then Inr (v\<lparr>m_IDs := (m_IDs v)[ID_value el1 := idx2, ID_value el2 := idx1],
                        m_Data := (m_Data v)[idx1 := m_Data v ! idx2, idx2 := m_Data v ! idx1],
                        m_RevIDs := (m_RevIDs v)[idx1 := m_RevIDs v ! idx2, idx2 := m_RevIDs v ! idx1]\<rparr>)
            else Inl OutOfBounds)
      else Inl OutOfBounds)"

definition idAt :: "'a Vector \<Rightarrow> nat \<Rightarrow> error + ID" where
  "idAt v index = (if index < length (m_RevIDs v) then Inr (m_RevIDs v ! index) else Inl OutOfBounds)"

definition indexOf :: "'a Vector \<Rightarrow> ID \<Rightarrow> error + nat" where
  "indexOf v h = (if ID_value h < length (m_IDs v) then Inr (m_IDs v ! ID_value h) else Inl OutOfBounds)"

definition dataAt :: "'a Vector \<Rightarrow> nat \<Rightarrow> error + 'a" where
  "dataAt v index = (if index < length (m_Data v) then Inr (m_Data v ! index) else Inl OutOfBounds)"

definition size_of :: "'a Vector \<Rightarrow> nat" where
  "size_of v = length (m_Data v)"

definition clear :: "'a Vector \<Rightarrow> 'a Vector" where
  "clear v = v\<lparr>m_Data := [], m_IDs := [], m_RevIDs := [], m_FreeIDSlots := []\<rparr>"

definition validID :: "'a Vector \<Rightarrow> ID \<Rightarrow> bool" where
  "validID v h = (0 \<le> ID_value h \<and> ID_value h < length (m_IDs v) \<and> h \<notin> set (m_FreeIDSlots v))"

text \<open>
  The loop of the order-preserving \<open>remove\<close>:
  \<open>for (i = indexOf(id); i < m_Data.size() - 1; i++) swapDataLocation(idAt(i), idAt(i + 1))\<close>.
\<close>

function remove_loop :: "'a Vector \<Rightarrow> nat \<Rightarrow> error + 'a Vector" where
  "remove_loop v i =
     (if i < size_sub (length (m_Data v)) 1 then
        (case idAt v i of
           Inl e \<Rightarrow> Inl e
         | Inr a \<Rightarrow>
             (case idAt v (i + 1) of
                Inl e \<Rightarrow> Inl e
              | Inr b \<Rightarrow>
                  (case swapDataLocation v a b of
                     Inl e \<Rightarrow> Inl e
                   | Inr v' \<Rightarrow> remove_loop v' (i + 1))))
      else Inr v)"
  by pat_completeness auto

termination
  by (relation "measure (\<lambda>(v, i). size_sub (length (m_Data v)) 1 - i)")
     (auto simp: swapDataLocation_def Let_def split: if_splits)

declare remove_loop.simps [simp del]

text \<open>
  \<open>remove\<close> in two parts: \<open>remove_no_reset\<close> is the body up to its last statement,
  and \<open>remove\<close> adds that statement, \<open>if (m_Data.empty()) clear();\<close>.
\<close>

definition remove_no_reset :: "'a Vector \<Rightarrow> ID \<Rightarrow> error + 'a Vector" where
  "remove_no_reset v h =
     (if ID_value h < length (m_IDs v) \<and> m_RevIDs v \<noteq> [] then
        (let lastDataID = last (m_RevIDs v) in
         case (if m_KeepOrder v then remove_loop v (m_IDs v ! ID_value h)
               else swapDataLocation v h lastDataID) of
           Inl e \<Rightarrow> Inl e
         | Inr v1 \<Rightarrow>
             (let v2 = v1\<lparr>m_FreeIDSlots := m_FreeIDSlots v1 @ [h]\<rparr> in
              if m_Data v2 \<noteq> [] \<and> m_RevIDs v2 \<noteq> [] then
                Inr (v2\<lparr>m_Data := butlast (m_Data v2), m_RevIDs := butlast (m_RevIDs v2)\<rparr>)
              else Inl OutOfBounds))
      else Inl OutOfBounds)"

definition remove :: "'a Vector \<Rightarrow> ID \<Rightarrow> error + 'a Vector" where
  "remove v h =
     (case remove_no_reset v h of
        Inl e \<Rightarrow> Inl e
      | Inr v3 \<Rightarrow> Inr (if m_Data v3 = [] then clear v3 else v3))"

text \<open>
  \<open>emplace\<close> builds the element from its arguments at the end of the dense store;
  here it takes the element that the arguments build. The rest of its body is the body
  of \<open>push\<close>.
\<close>

definition emplace :: "'a Vector \<Rightarrow> 'a \<Rightarrow> error + ('a Vector \<times> ID)" where
  "emplace v element =
     (let v1 = v\<lparr>m_Data := m_Data v @ [element]\<rparr>;
          h = ID (size_sub (length (m_Data v1)) 1)
      in case addID v1 h of
           Inl e \<Rightarrow> Inl e
         | Inr (v2, idIndex) \<Rightarrow> Inr (v2\<lparr>m_RevIDs := m_RevIDs v2 @ [idIndex]\<rparr>, idIndex))"

definition push :: "'a Vector \<Rightarrow> 'a \<Rightarrow> error + ('a Vector \<times> ID)" where
  "push v element =
     (let v1 = v\<lparr>m_Data := m_Data v @ [element]\<rparr>;
          h = ID (size_sub (length (m_Data v1)) 1)
      in case addID v1 h of
           Inl e \<Rightarrow> Inl e
         | Inr (v2, idIndex) \<Rightarrow> Inr (v2\<lparr>m_RevIDs := m_RevIDs v2 @ [idIndex]\<rparr>, idIndex))"

text \<open>\<open>std::to_string\<close> of a \<open>size_t\<close>: its decimal digits.\<close>

fun to_string :: "nat \<Rightarrow> string" where
  "to_string n =
     (if n < 10 then [char_of (48 + n)]
      else to_string (n div 10) @ [char_of (48 + n mod 10)])"

declare to_string.simps [simp del]

definition get :: "'a Vector \<Rightarrow> ID \<Rightarrow> error + 'a" where
  "get v h =
     (if validID v h then
        (if ID_value h < length (m_IDs v) \<and> m_IDs v ! ID_value h < length (m_Data v)
         then Inr (m_Data v ! (m_IDs v ! ID_value h))
         else Inl OutOfBounds)
      else
        (let faliureReason =
               (if ID_value h < 0 \<or> ID_value h \<ge> length (m_IDs v)
                then ''ID out of bounds.''
                else ''The object with this id has been deleted.'')
         in Inl (InvalidArgument
                  (''ID: '' @ to_string (ID_value h) @ '' is not a valid ID. '' @ faliureReason))))"

text \<open>
  A caller of the container: the calls it makes, and what each one gives back. An
  out-of-bounds access ends the run; the exceptions of \<open>get\<close> and of \<open>reserve\<close> are
  caught by the caller and the run goes on. A call of \<open>reserve\<close> comes with the
  \<open>max_size()\<close> values of the platform.
\<close>

datatype 'a call = Push 'a | Emplace 'a | Remove ID | Clear | Get ID | Reserve limits nat

datatype 'a event =
  Returned ID | Removed ID | Cleared | Got 'a | Threw string | Reserved | ReserveThrew

fun exec :: "'a call \<Rightarrow> 'a Vector \<Rightarrow> error + ('a event \<times> 'a Vector)" where
  "exec (Push x) v = (case push v x of Inl e \<Rightarrow> Inl e | Inr (v', h) \<Rightarrow> Inr (Returned h, v'))"
| "exec (Emplace x) v = (case emplace v x of Inl e \<Rightarrow> Inl e | Inr (v', h) \<Rightarrow> Inr (Returned h, v'))"
| "exec (Remove h) v = (case remove v h of Inl e \<Rightarrow> Inl e | Inr v' \<Rightarrow> Inr (Removed h, v'))"
| "exec Clear v = Inr (Cleared, clear v)"
| "exec (Get h) v =
     (case get v h of
        Inl OutOfBounds \<Rightarrow> Inl OutOfBounds
      | Inl (InvalidArgument msg) \<Rightarrow> Inr (Threw msg, v)
      | Inl LengthError \<Rightarrow> Inl LengthError
      | Inr x \<Rightarrow> Inr (Got x, v))"
| "exec (Reserve lim n) v =
     (case thrown (reserve lim v n) of
        None \<Rightarrow> Inr (Reserved, container (reserve lim v n))
      | Some e \<Rightarrow> Inr (ReserveThrew, container (reserve lim v n)))"

fun run :: "'a call list \<Rightarrow> 'a Vector \<Rightarrow> error + ('a event list \<times> 'a Vector)" where
  "run [] v = Inr ([], v)"
| "run (c # cs) v =
     (case exec c v of
        Inl e \<Rightarrow> Inl e
      | Inr (ev, v') \<Rightarrow>
          (case run cs v' of Inl e \<Rightarrow> Inl e | Inr (evs, v'') \<Rightarrow> Inr (ev # evs, v'')))"

text \<open>Every \<open>remove\<close> of the run is called with a handle that is valid at that moment.\<close>

fun removes_valid :: "'a call list \<Rightarrow> 'a Vector \<Rightarrow> bool" where
  "removes_valid [] v = True"
| "removes_valid (c # cs) v =
     ((case c of Remove h \<Rightarrow> validID v h | _ \<Rightarrow> True) \<and>
      (case exec c v of Inl e \<Rightarrow> True | Inr (ev, v') \<Rightarrow> removes_valid cs v'))"

text \<open>
  The handles a caller holds, in the spec's words: those returned by \<open>push\<close> or
  \<open>emplace\<close> and not passed to \<open>remove\<close> since, none after a \<open>clear\<close>.
\<close>

fun track :: "ID set \<Rightarrow> 'a event \<Rightarrow> ID set" where
  "track L (Returned h) = insert h L"
| "track L (Removed h) = L - {h}"
| "track L Cleared = {}"
| "track L (Got x) = L"
| "track L (Threw msg) = L"
| "track L Reserved = L"
| "track L ReserveThrew = L"

definition live_handles :: "'a event list \<Rightarrow> ID set" where
  "live_handles evs = foldl track {} evs"

text \<open>
  The states of a container in use. \<open>slots\<close> lists the handle indices by position: the
  reverse table, then the free list from its top. The slot table is the inverse of that
  list, and a container without elements has no slots. Every state that a new container
  reaches through calls whose \<open>remove\<close>s are given valid handles is of this kind
  (\<open>run_new\<close> below).
\<close>

definition slots :: "'a Vector \<Rightarrow> nat list" where
  "slots v = map ID_value (m_RevIDs v @ rev (m_FreeIDSlots v))"

definition wf_Vector :: "'a Vector \<Rightarrow> bool" where
  "wf_Vector v \<longleftrightarrow>
     length (m_Data v) = length (m_RevIDs v) \<and>
     length (m_IDs v) = length (slots v) \<and>
     list_all (\<lambda>s. s < length (m_IDs v)) (slots v) \<and>
     map (\<lambda>s. m_IDs v ! s) (slots v) = [0..<length (slots v)] \<and>
     (m_Data v = [] \<longrightarrow> m_IDs v = [])"

text \<open>
  Four list operations, used to say what the operations of the container do to its
  tables: exchanging two positions of all three tables, moving an element to the end,
  deleting a position, and overwriting a position with the last element before dropping
  the last position.
\<close>

definition swap_at :: "'a Vector \<Rightarrow> nat \<Rightarrow> nat \<Rightarrow> 'a Vector" where
  "swap_at v p q =
     v\<lparr>m_IDs := (m_IDs v)[ID_value (m_RevIDs v ! p) := q, ID_value (m_RevIDs v ! q) := p],
       m_Data := (m_Data v)[p := m_Data v ! q, q := m_Data v ! p],
       m_RevIDs := (m_RevIDs v)[p := m_RevIDs v ! q, q := m_RevIDs v ! p]\<rparr>"

definition move_to_end :: "nat \<Rightarrow> 'b list \<Rightarrow> 'b list" where
  "move_to_end i xs = take i xs @ drop (Suc i) xs @ [xs ! i]"

definition delete_at :: "nat \<Rightarrow> 'b list \<Rightarrow> 'b list" where
  "delete_at i xs = take i xs @ drop (Suc i) xs"

definition swap_remove_at :: "nat \<Rightarrow> 'b list \<Rightarrow> 'b list" where
  "swap_remove_at i xs = butlast (xs[i := last xs])"

text \<open>The last three statements of \<open>remove_no_reset\<close>, on their own.\<close>

definition retire :: "'a Vector \<Rightarrow> ID \<Rightarrow> 'a Vector" where
  "retire v h =
     v\<lparr>m_FreeIDSlots := m_FreeIDSlots v @ [h],
       m_Data := butlast (m_Data v), m_RevIDs := butlast (m_RevIDs v)\<rparr>"

section \<open>Well-formed containers\<close>

lemma ID_value_inj: "ID_value a = ID_value b \<longleftrightarrow> a = b"
  by (cases a; cases b) simp

lemma wf_slots_nth:
  assumes "wf_Vector v" "q < length (slots v)"
  shows "slots v ! q < length (m_IDs v)" "m_IDs v ! (slots v ! q) = q"
proof -
  from assms show "slots v ! q < length (m_IDs v)"
    by (auto simp: wf_Vector_def list_all_length)
  from assms have "map (\<lambda>s. m_IDs v ! s) (slots v) ! q = [0..<length (slots v)] ! q"
    by (simp add: wf_Vector_def)
  with assms(2) show "m_IDs v ! (slots v ! q) = q" by simp
qed

lemma wf_slots_distinct:
  assumes "wf_Vector v"
  shows "distinct (slots v)"
proof -
  from assms have "distinct (map (\<lambda>s. m_IDs v ! s) (slots v))"
    by (simp add: wf_Vector_def)
  then show ?thesis by (simp add: distinct_map)
qed

lemma wf_slots_set:
  assumes "wf_Vector v"
  shows "set (slots v) = {..<length (m_IDs v)}"
proof (rule card_subset_eq)
  show "finite {..<length (m_IDs v)}" by simp
  from assms show "set (slots v) \<subseteq> {..<length (m_IDs v)}"
    by (auto simp: wf_Vector_def list_all_iff)
  from assms have "length (m_IDs v) = length (slots v)" by (simp add: wf_Vector_def)
  with wf_slots_distinct [OF assms] show "card (set (slots v)) = card {..<length (m_IDs v)}"
    by (simp add: distinct_card)
qed

lemma wf_lengths:
  assumes "wf_Vector v"
  shows "length (m_Data v) = length (m_RevIDs v)"
    and "length (m_IDs v) = length (m_RevIDs v) + length (m_FreeIDSlots v)"
  using assms by (simp_all add: wf_Vector_def slots_def)

lemma wf_distinct_tables:
  assumes "wf_Vector v"
  shows "distinct (m_RevIDs v)" "distinct (m_FreeIDSlots v)"
    "set (m_RevIDs v) \<inter> set (m_FreeIDSlots v) = {}"
proof -
  have "distinct (map ID_value (m_RevIDs v @ rev (m_FreeIDSlots v)))"
    using wf_slots_distinct [OF assms] unfolding slots_def .
  then have d: "distinct (m_RevIDs v @ rev (m_FreeIDSlots v))"
    by (rule distinct_map [THEN iffD1, THEN conjunct1])
  then show "distinct (m_RevIDs v)" "distinct (m_FreeIDSlots v)"
    "set (m_RevIDs v) \<inter> set (m_FreeIDSlots v) = {}"
    by auto
qed

lemma wf_in_range_iff:
  assumes "wf_Vector v"
  shows "ID_value h < length (m_IDs v) \<longleftrightarrow> h \<in> set (m_RevIDs v) \<or> h \<in> set (m_FreeIDSlots v)"
proof -
  have "ID_value h < length (m_IDs v) \<longleftrightarrow> ID_value h \<in> set (slots v)"
    using wf_slots_set [OF assms] by simp
  also have "\<dots> \<longleftrightarrow> h \<in> set (m_RevIDs v) \<or> h \<in> set (m_FreeIDSlots v)"
    by (auto simp: slots_def ID_value_inj image_iff)
  finally show ?thesis .
qed

lemma wf_validID_iff:
  assumes "wf_Vector v"
  shows "validID v h \<longleftrightarrow> h \<in> set (m_RevIDs v)"
  using wf_in_range_iff [OF assms, of h] wf_distinct_tables(3) [OF assms]
  by (auto simp: validID_def)

lemma wf_rev_nth:
  assumes "wf_Vector v" "p < length (m_RevIDs v)"
  shows "ID_value (m_RevIDs v ! p) < length (m_IDs v)"
    and "m_IDs v ! ID_value (m_RevIDs v ! p) = p"
proof -
  have q: "p < length (slots v)" using assms(2) by (simp add: slots_def)
  have e: "slots v ! p = ID_value (m_RevIDs v ! p)"
    using assms(2) by (simp add: slots_def nth_append)
  from wf_slots_nth [OF assms(1) q] e
  show "ID_value (m_RevIDs v ! p) < length (m_IDs v)"
    and "m_IDs v ! ID_value (m_RevIDs v ! p) = p" by simp_all
qed

lemma wf_live_index:
  assumes "wf_Vector v" "h \<in> set (m_RevIDs v)"
  shows "ID_value h < length (m_IDs v)"
    and "m_IDs v ! ID_value h < length (m_RevIDs v)"
    and "m_RevIDs v ! (m_IDs v ! ID_value h) = h"
proof -
  from assms(2) obtain p where p: "p < length (m_RevIDs v)" "m_RevIDs v ! p = h"
    by (auto simp: in_set_conv_nth)
  from wf_rev_nth [OF assms(1) p(1)] p
  show "ID_value h < length (m_IDs v)"
    and "m_IDs v ! ID_value h < length (m_RevIDs v)"
    and "m_RevIDs v ! (m_IDs v ! ID_value h) = h" by simp_all
qed

lemma wf_free_nth:
  assumes "wf_Vector v" "j < length (m_FreeIDSlots v)"
  shows "ID_value (m_FreeIDSlots v ! j) < length (m_IDs v)"
    and "m_IDs v ! ID_value (m_FreeIDSlots v ! j) = length (m_IDs v) - 1 - j"
proof -
  let ?n = "length (m_RevIDs v)" and ?k = "length (m_FreeIDSlots v)"
  let ?q = "?n + (?k - 1 - j)"
  have q: "?q < length (slots v)" using assms(2) by (simp add: slots_def)
  have "slots v ! ?q = (map ID_value (m_RevIDs v) @ map ID_value (rev (m_FreeIDSlots v))) ! (length (map ID_value (m_RevIDs v)) + (?k - 1 - j))"
    by (simp add: slots_def)
  also have "\<dots> = map ID_value (rev (m_FreeIDSlots v)) ! (?k - 1 - j)"
    by (rule nth_append_length_plus)
  also have "\<dots> = ID_value (m_FreeIDSlots v ! j)"
    using assms(2) by (simp add: rev_nth)
  finally have e: "slots v ! ?q = ID_value (m_FreeIDSlots v ! j)" .
  have l: "?q = length (m_IDs v) - 1 - j"
    using assms(2) wf_lengths(2) [OF assms(1)] by simp
  from wf_slots_nth [OF assms(1) q] e l
  show "ID_value (m_FreeIDSlots v ! j) < length (m_IDs v)"
    and "m_IDs v ! ID_value (m_FreeIDSlots v ! j) = length (m_IDs v) - 1 - j" by simp_all
qed

lemma wf_free_index:
  assumes "wf_Vector v" "h \<in> set (m_FreeIDSlots v)"
  shows "ID_value h < length (m_IDs v)"
    and "length (m_RevIDs v) \<le> m_IDs v ! ID_value h"
proof -
  from assms(2) obtain j where j: "j < length (m_FreeIDSlots v)" "m_FreeIDSlots v ! j = h"
    by (auto simp: in_set_conv_nth)
  from wf_free_nth [OF assms(1) j(1)] j wf_lengths(2) [OF assms(1)]
  show "ID_value h < length (m_IDs v)"
    and "length (m_RevIDs v) \<le> m_IDs v ! ID_value h" by simp_all
qed

lemma emplace_eq_push: "emplace v x = push v x"
  by (simp add: emplace_def push_def)

lemma size_sub_Suc [simp]: "size_sub (Suc n) (Suc 0) = n"
  by (simp add: size_sub_def)

lemma push_fresh:
  assumes "m_FreeIDSlots v = []"
  shows "push v x =
    Inr (v\<lparr>m_Data := m_Data v @ [x],
           m_IDs := m_IDs v @ [length (m_Data v)],
           m_RevIDs := m_RevIDs v @ [ID (length (m_IDs v))]\<rparr>, ID (length (m_IDs v)))"
  using assms by (simp add: push_def addID_def)

lemma push_recycle:
  assumes "m_FreeIDSlots v \<noteq> []" "ID_value (last (m_FreeIDSlots v)) < length (m_IDs v)"
  shows "push v x =
    Inr (v\<lparr>m_Data := m_Data v @ [x],
           m_IDs := (m_IDs v)[ID_value (last (m_FreeIDSlots v)) := length (m_Data v)],
           m_RevIDs := m_RevIDs v @ [last (m_FreeIDSlots v)],
           m_FreeIDSlots := butlast (m_FreeIDSlots v)\<rparr>, last (m_FreeIDSlots v))"
  using assms by (simp add: push_def addID_def Let_def)

lemma wf_last_free:
  assumes "wf_Vector v" "m_FreeIDSlots v \<noteq> []"
  shows "ID_value (last (m_FreeIDSlots v)) < length (m_IDs v)"
    and "m_IDs v ! ID_value (last (m_FreeIDSlots v)) = length (m_Data v)"
proof -
  let ?j = "length (m_FreeIDSlots v) - 1"
  have j: "?j < length (m_FreeIDSlots v)" using assms(2) by simp
  have l: "m_FreeIDSlots v ! ?j = last (m_FreeIDSlots v)"
    using assms(2) by (simp add: last_conv_nth)
  from wf_free_nth [OF assms(1) j] l wf_lengths [OF assms(1)] assms(2)
  show "ID_value (last (m_FreeIDSlots v)) < length (m_IDs v)"
    and "m_IDs v ! ID_value (last (m_FreeIDSlots v)) = length (m_Data v)"
    by simp_all
qed

lemma rev_last_butlast: "xs \<noteq> [] \<Longrightarrow> rev xs = last xs # rev (butlast xs)"
  by (cases xs rule: rev_cases) simp_all

lemma wf_VectorI:
  assumes "length (m_Data v) = length (m_RevIDs v)"
    and "length (m_IDs v) = length (slots v)"
    and "\<And>q. q < length (slots v) \<Longrightarrow> slots v ! q < length (m_IDs v) \<and> m_IDs v ! (slots v ! q) = q"
    and "m_Data v = [] \<Longrightarrow> m_IDs v = []"
  shows "wf_Vector v"
proof -
  have "list_all (\<lambda>s. s < length (m_IDs v)) (slots v)"
    using assms(3) by (simp add: list_all_length)
  moreover have "map (\<lambda>s. m_IDs v ! s) (slots v) = [0..<length (slots v)]"
    using assms(3) by (intro nth_equalityI) simp_all
  ultimately show ?thesis
    using assms(1,2,4) by (simp add: wf_Vector_def)
qed

lemma push_wf:
  assumes "wf_Vector v"
  shows "\<exists>v' h. push v x = Inr (v', h) \<and> wf_Vector v' \<and>
           m_Data v' = m_Data v @ [x] \<and> m_RevIDs v' = m_RevIDs v @ [h] \<and>
           m_KeepOrder v' = m_KeepOrder v \<and>
           h = (if m_FreeIDSlots v = [] then ID (length (m_IDs v)) else last (m_FreeIDSlots v)) \<and>
           m_FreeIDSlots v' = butlast (m_FreeIDSlots v)"
proof (cases "m_FreeIDSlots v = []")
  case True
  let ?v' = "v\<lparr>m_Data := m_Data v @ [x],
           m_IDs := m_IDs v @ [length (m_Data v)],
           m_RevIDs := m_RevIDs v @ [ID (length (m_IDs v))]\<rparr>"
  have n: "length (m_IDs v) = length (m_RevIDs v)" "length (m_Data v) = length (m_RevIDs v)"
    using wf_lengths [OF assms] True by simp_all
  have s: "slots ?v' = slots v @ [length (m_IDs v)]"
    using True by (simp add: slots_def)
  have "wf_Vector ?v'"
  proof (rule wf_VectorI)
    fix q assume "q < length (slots ?v')"
    then have q: "q < length (slots v) \<or> q = length (slots v)" unfolding s by auto
    have ls: "length (slots v) = length (m_IDs v)" using wf_lengths [OF assms] by (simp add: slots_def)
    from q show "slots ?v' ! q < length (m_IDs ?v') \<and> m_IDs ?v' ! (slots ?v' ! q) = q"
    proof
      assume a: "q < length (slots v)"
      from wf_slots_nth [OF assms a] a show ?thesis
        unfolding s by (simp add: nth_append)
    next
      assume "q = length (slots v)"
      then show ?thesis unfolding s using ls n by (simp add: nth_append)
    qed
  qed (use n s wf_lengths [OF assms] in \<open>simp_all add: slots_def\<close>)
  with push_fresh [OF True, of x] True show ?thesis by simp
next
  case False
  let ?h = "last (m_FreeIDSlots v)"
  let ?v' = "v\<lparr>m_Data := m_Data v @ [x],
           m_IDs := (m_IDs v)[ID_value ?h := length (m_Data v)],
           m_RevIDs := m_RevIDs v @ [?h],
           m_FreeIDSlots := butlast (m_FreeIDSlots v)\<rparr>"
  note lf = wf_last_free [OF assms False]
  have i: "(m_IDs v)[ID_value ?h := length (m_Data v)] = m_IDs v"
    using lf by (metis list_update_id)
  have s: "slots ?v' = slots v"
    by (simp add: slots_def rev_last_butlast [OF False])
  have "wf_Vector ?v'"
  proof (rule wf_VectorI)
    fix q assume "q < length (slots ?v')"
    then have a: "q < length (slots v)" unfolding s .
    from wf_slots_nth [OF assms a] show "slots ?v' ! q < length (m_IDs ?v') \<and> m_IDs ?v' ! (slots ?v' ! q) = q"
      unfolding s by (simp add: i)
  next
    show "length (m_IDs ?v') = length (slots ?v')"
      unfolding s using wf_lengths [OF assms] by (simp add: slots_def)
  qed (use wf_lengths [OF assms] in simp_all)
  with push_recycle [OF False lf(1), of x] False show ?thesis by simp
qed

lemma swapDataLocation_live:
  assumes "wf_Vector v" "p < length (m_RevIDs v)" "q < length (m_RevIDs v)"
  shows "swapDataLocation v (m_RevIDs v ! p) (m_RevIDs v ! q) = Inr (swap_at v p q)"
  using wf_rev_nth [OF assms(1,2)] wf_rev_nth [OF assms(1,3)] wf_lengths(1) [OF assms(1)] assms(2,3)
  by (simp add: swapDataLocation_def swap_at_def)

lemma slots_swap_at:
  assumes "p < length (m_RevIDs v)" "q < length (m_RevIDs v)"
  shows "slots (swap_at v p q) = (slots v)[p := slots v ! q, q := slots v ! p]"
  using assms by (simp add: slots_def swap_at_def list_update_append map_update nth_append)

lemma swap_at_wf:
  assumes "wf_Vector v" "p < length (m_RevIDs v)" "q < length (m_RevIDs v)"
  shows "wf_Vector (swap_at v p q)"
proof (rule wf_VectorI)
  let ?s = "slots v" and ?ids = "m_IDs v"
  have pl: "p < length ?s" and ql: "q < length ?s" using assms(2,3) by (simp_all add: slots_def)
  have sp: "?s ! p = ID_value (m_RevIDs v ! p)" and sq: "?s ! q = ID_value (m_RevIDs v ! q)"
    using assms(2,3) by (simp_all add: slots_def nth_append)
  note d = wf_slots_distinct [OF assms(1)]
  note P = wf_slots_nth [OF assms(1) pl] and Q = wf_slots_nth [OF assms(1) ql]
  have ids': "m_IDs (swap_at v p q) = ?ids[?s ! p := q, ?s ! q := p]"
    by (simp add: swap_at_def sp sq)
  fix r assume "r < length (slots (swap_at v p q))"
  then have r: "r < length ?s" by (simp add: slots_swap_at [OF assms(2,3)])
  note R = wf_slots_nth [OF assms(1) r]
  have eqp: "?s ! r = ?s ! p \<longleftrightarrow> r = p" and eqq: "?s ! r = ?s ! q \<longleftrightarrow> r = q"
    and pq: "?s ! p = ?s ! q \<longleftrightarrow> p = q"
    using d r pl ql by (simp_all add: nth_eq_iff_index_eq)
  show "slots (swap_at v p q) ! r < length (m_IDs (swap_at v p q)) \<and>
        m_IDs (swap_at v p q) ! (slots (swap_at v p q) ! r) = r"
    unfolding slots_swap_at [OF assms(2,3)] ids'
    using P Q R r pl ql eqp eqq pq
    by (auto simp: nth_list_update)
next
  show "length (m_Data (swap_at v p q)) = length (m_RevIDs (swap_at v p q))"
    using wf_lengths(1) [OF assms(1)] by (simp add: swap_at_def)
  show "length (m_IDs (swap_at v p q)) = length (slots (swap_at v p q))"
    using wf_lengths(2) [OF assms(1)] by (simp add: swap_at_def slots_def)
  show "m_Data (swap_at v p q) = [] \<Longrightarrow> m_IDs (swap_at v p q) = []"
    using assms(2) wf_lengths(1) [OF assms(1)] by (auto simp: swap_at_def)
qed

lemma move_to_end_last: "Suc i = length xs \<Longrightarrow> move_to_end i xs = xs"
  by (simp add: move_to_end_def take_Suc_conv_app_nth [symmetric])

lemma move_to_end_step:
  assumes "Suc i < length xs"
  shows "move_to_end (Suc i) (xs[i := xs ! Suc i, Suc i := xs ! i]) = move_to_end i xs"
proof -
  let ?ys = "xs[i := xs ! Suc i, Suc i := xs ! i]"
  have "take (Suc i) ?ys = take i xs @ [xs ! Suc i]"
    using assms by (simp add: take_Suc_conv_app_nth)
  moreover have "drop (Suc (Suc i)) ?ys = drop (Suc (Suc i)) xs" by simp
  moreover have "?ys ! Suc i = xs ! i" using assms by simp
  moreover have "drop (Suc i) xs = xs ! Suc i # drop (Suc (Suc i)) xs"
    using assms by (simp add: Cons_nth_drop_Suc)
  ultimately show ?thesis by (simp add: move_to_end_def)
qed

lemma length_move_to_end: "i < length xs \<Longrightarrow> length (move_to_end i xs) = length xs"
  by (simp add: move_to_end_def)

lemma size_sub_pos: "0 < n \<Longrightarrow> size_sub n (Suc 0) = n - 1"
  by (simp add: size_sub_def)

lemma remove_loop_live:
  assumes "wf_Vector v" "i < length (m_RevIDs v)"
  shows "\<exists>v'. remove_loop v i = Inr v' \<and> wf_Vector v' \<and>
           m_Data v' = move_to_end i (m_Data v) \<and>
           m_RevIDs v' = move_to_end i (m_RevIDs v) \<and>
           m_FreeIDSlots v' = m_FreeIDSlots v \<and>
           m_KeepOrder v' = m_KeepOrder v \<and>
           length (m_IDs v') = length (m_IDs v)"
  using assms
proof (induction "length (m_RevIDs v) - i" arbitrary: v i)
  case 0
  then show ?case by simp
next
  case (Suc k)
  note wf = \<open>wf_Vector v\<close>
  note n = wf_lengths(1) [OF wf]
  show ?case
  proof (cases "Suc i < length (m_RevIDs v)")
    case False
    with Suc.prems(2) have e: "Suc i = length (m_RevIDs v)" by simp
    have "remove_loop v i = Inr v"
      using n e [symmetric] by (subst remove_loop.simps) simp
    with wf e n show ?thesis by (simp add: move_to_end_last)
  next
    case True
    let ?v1 = "swap_at v i (Suc i)"
    have wf1: "wf_Vector ?v1" by (rule swap_at_wf [OF wf Suc.prems(2) True])
    have l1: "length (m_RevIDs ?v1) = length (m_RevIDs v)" by (simp add: swap_at_def)
    have k: "k = length (m_RevIDs ?v1) - Suc i" using Suc.hyps(2) l1 by simp
    have i1: "Suc i < length (m_RevIDs ?v1)" using True l1 by simp
    from Suc.hyps(1) [OF k wf1 i1] obtain v' where
      v': "remove_loop ?v1 (Suc i) = Inr v'" "wf_Vector v'"
        "m_Data v' = move_to_end (Suc i) (m_Data ?v1)"
        "m_RevIDs v' = move_to_end (Suc i) (m_RevIDs ?v1)"
        "m_FreeIDSlots v' = m_FreeIDSlots ?v1"
        "m_KeepOrder v' = m_KeepOrder ?v1"
        "length (m_IDs v') = length (m_IDs ?v1)" by blast
    have ss: "i < size_sub (length (m_Data v)) 1"
      using True n by (simp add: size_sub_def)
    have "remove_loop v i = remove_loop ?v1 (Suc i)"
      using True ss swapDataLocation_live [OF wf Suc.prems(2) True]
      by (subst remove_loop.simps) (simp add: idAt_def)
    moreover have "move_to_end (Suc i) (m_Data ?v1) = move_to_end i (m_Data v)"
      using True n by (simp add: swap_at_def move_to_end_step)
    moreover have "move_to_end (Suc i) (m_RevIDs ?v1) = move_to_end i (m_RevIDs v)"
      using True by (simp add: swap_at_def move_to_end_step)
    ultimately show ?thesis using v' by (simp add: swap_at_def)
  qed
qed

lemma move_to_end_snoc: "move_to_end i xs = delete_at i xs @ [xs ! i]"
  by (simp add: move_to_end_def delete_at_def)

lemma set_delete_at:
  assumes "distinct xs" "i < length xs"
  shows "set (delete_at i xs) = set xs - {xs ! i}"
proof -
  have "xs = take i xs @ xs ! i # drop (Suc i) xs"
    using assms(2) by (rule id_take_nth_drop)
  then obtain as bs where x: "xs = as @ xs ! i # bs" "as = take i xs" "bs = drop (Suc i) xs"
    by blast
  from assms(1) x(1) have "distinct (as @ xs ! i # bs)" by simp
  then have "set (as @ bs) = set (as @ xs ! i # bs) - {xs ! i}" by auto
  with x show ?thesis by (simp add: delete_at_def)
qed

lemma zip_delete_at:
  "length xs = length ys \<Longrightarrow> zip (delete_at i xs) (delete_at i ys) = delete_at i (zip xs ys)"
  by (simp add: delete_at_def take_zip drop_zip)

lemma swap_then_pop:
  assumes "xs \<noteq> []"
  shows "butlast (xs[i := xs ! (length xs - 1), length xs - 1 := xs ! i]) = swap_remove_at i xs"
  using assms by (simp add: swap_remove_at_def butlast_list_update last_conv_nth)

lemma swap_then_last:
  assumes "i < length xs"
  shows "last (xs[i := xs ! (length xs - 1), length xs - 1 := xs ! i]) = xs ! i"
proof -
  let ?ys = "xs[i := xs ! (length xs - 1), length xs - 1 := xs ! i]"
  have "?ys \<noteq> []" using assms by auto
  then have "last ?ys = ?ys ! (length ?ys - 1)" by (rule last_conv_nth)
  also have "\<dots> = xs ! i" using assms by simp
  finally show ?thesis .
qed

lemma set_swap_remove_at:
  assumes "distinct xs" "i < length xs"
  shows "set (swap_remove_at i xs) = set xs - {xs ! i}"
proof (cases xs rule: rev_cases)
  case Nil
  with assms(2) show ?thesis by simp
next
  case (snoc bs l)
  from assms(1) snoc have d: "distinct bs" and nl: "l \<notin> set bs" by simp_all
  show ?thesis
  proof (cases "i < length bs")
    case True
    then have "swap_remove_at i xs = bs[i := l]"
      by (simp add: swap_remove_at_def snoc list_update_append)
    then have "set (swap_remove_at i xs) = insert l (set bs - {bs ! i})"
      using set_update_distinct [OF d True, of l] by simp
    moreover have "xs ! i = bs ! i" using True by (simp add: snoc nth_append)
    moreover have "bs ! i \<noteq> l" using nl True by (metis nth_mem)
    ultimately show ?thesis using nl by (auto simp: snoc)
  next
    case False
    with assms(2) snoc have i: "i = length bs" by simp
    then have "swap_remove_at i xs = bs"
      by (simp add: swap_remove_at_def snoc)
    moreover have "xs ! i = l" by (simp add: i snoc)
    ultimately show ?thesis using nl by (auto simp: snoc)
  qed
qed

lemma wf_clear: "wf_Vector (clear v)"
  by (simp add: wf_Vector_def clear_def slots_def)

lemma clear_eq: "clear v = Vector_new (m_KeepOrder v)"
  by (simp add: clear_def Vector_new_def)

lemma length_swap_remove_at: "length (swap_remove_at i xs) = length xs - 1"
  by (simp add: swap_remove_at_def)

lemma length_delete_at: "i < length xs \<Longrightarrow> length (delete_at i xs) = length xs - 1"
  by (simp add: delete_at_def)

lemma retire_wf:
  assumes "wf_Vector v" "1 < length (m_RevIDs v)" "last (m_RevIDs v) = h"
  shows "wf_Vector (retire v h)"
proof (rule wf_VectorI)
  have ne: "m_RevIDs v \<noteq> []" using assms(2) by auto
  have e: "butlast (m_RevIDs v) @ [h] = m_RevIDs v"
    using ne assms(3) by (metis append_butlast_last_id)
  have "slots (retire v h) = map ID_value ((butlast (m_RevIDs v) @ [h]) @ rev (m_FreeIDSlots v))"
    by (simp add: slots_def retire_def)
  also have "\<dots> = slots v" unfolding e by (simp add: slots_def)
  finally have s: "slots (retire v h) = slots v" .
  fix q assume "q < length (slots (retire v h))"
  then have q: "q < length (slots v)" by (simp add: s)
  from wf_slots_nth [OF assms(1) q]
  show "slots (retire v h) ! q < length (m_IDs (retire v h)) \<and>
        m_IDs (retire v h) ! (slots (retire v h) ! q) = q"
    unfolding s by (simp add: retire_def)
next
  show "length (m_Data (retire v h)) = length (m_RevIDs (retire v h))"
    using wf_lengths(1) [OF assms(1)] by (simp add: retire_def)
  show "length (m_IDs (retire v h)) = length (slots (retire v h))"
    using wf_lengths(2) [OF assms(1)] assms(2) by (simp add: retire_def slots_def)
  show "m_Data (retire v h) = [] \<Longrightarrow> m_IDs (retire v h) = []"
    using wf_lengths(1) [OF assms(1)] assms(2)
    by (cases "m_Data v" rule: rev_cases) (auto simp: retire_def)
qed

lemma remove_no_reset_unfold:
  assumes "ID_value h < length (m_IDs v)" "m_RevIDs v \<noteq> []"
    and "(if m_KeepOrder v then remove_loop v (m_IDs v ! ID_value h)
          else swapDataLocation v h (last (m_RevIDs v))) = Inr v1"
    and "m_Data v1 \<noteq> []" "m_RevIDs v1 \<noteq> []"
  shows "remove_no_reset v h = Inr (retire v1 h)"
  using assms unfolding remove_no_reset_def retire_def Let_def by simp

lemma remove_unfold:
  assumes "ID_value h < length (m_IDs v)" "m_RevIDs v \<noteq> []"
    and "(if m_KeepOrder v then remove_loop v (m_IDs v ! ID_value h)
          else swapDataLocation v h (last (m_RevIDs v))) = Inr v1"
    and "m_Data v1 \<noteq> []" "m_RevIDs v1 \<noteq> []"
  shows "remove v h = Inr (if length (m_Data v1) = 1 then clear (retire v1 h) else retire v1 h)"
proof -
  have "butlast (m_Data v1) = [] \<longleftrightarrow> length (m_Data v1) = 1"
    using assms(4) by (cases "m_Data v1" rule: rev_cases) simp_all
  then show ?thesis
    unfolding remove_def remove_no_reset_unfold [OF assms]
    by (simp add: retire_def del: One_nat_def)
qed

lemma remove_valid_keep_order:
  assumes "wf_Vector v" "validID v h" "m_KeepOrder v"
  shows "\<exists>v'. remove v h = Inr v' \<and> wf_Vector v' \<and>
           m_KeepOrder v' = m_KeepOrder v \<and>
           m_Data v' = delete_at (m_IDs v ! ID_value h) (m_Data v) \<and>
           m_RevIDs v' = delete_at (m_IDs v ! ID_value h) (m_RevIDs v) \<and>
           m_FreeIDSlots v' = (if length (m_Data v) = 1 then [] else m_FreeIDSlots v @ [h]) \<and>
           length (m_IDs v') = (if length (m_Data v) = 1 then 0 else length (m_IDs v))"
proof -
  let ?i = "m_IDs v ! ID_value h"
  from assms(1,2) have live: "h \<in> set (m_RevIDs v)" by (simp add: wf_validID_iff)
  note L = wf_live_index [OF assms(1) live]
  note n = wf_lengths(1) [OF assms(1)]
  from remove_loop_live [OF assms(1) L(2)] obtain v1 where
    v1: "remove_loop v ?i = Inr v1" "wf_Vector v1"
      "m_Data v1 = move_to_end ?i (m_Data v)"
      "m_RevIDs v1 = move_to_end ?i (m_RevIDs v)"
      "m_FreeIDSlots v1 = m_FreeIDSlots v"
      "m_KeepOrder v1 = m_KeepOrder v"
      "length (m_IDs v1) = length (m_IDs v)" by blast
  have ne: "m_RevIDs v \<noteq> []" using live by auto
  have l1: "length (m_Data v1) = length (m_Data v)" "length (m_RevIDs v1) = length (m_RevIDs v)"
    using v1(3,4) L(2) n by (simp_all add: length_move_to_end)
  have ne1: "m_Data v1 \<noteq> []" "m_RevIDs v1 \<noteq> []"
    using l1 ne n by auto
  have last1: "last (m_RevIDs v1) = h"
    using v1(4) L(3) by (simp add: move_to_end_snoc)
  have r: "remove v h = Inr (if length (m_Data v1) = 1 then clear (retire v1 h) else retire v1 h)"
    using assms(3) v1(1) by (intro remove_unfold [OF L(1) ne _ ne1]) simp
  have d: "m_Data (retire v1 h) = delete_at ?i (m_Data v)"
    "m_RevIDs (retire v1 h) = delete_at ?i (m_RevIDs v)"
    using v1(3,4) by (simp_all add: retire_def move_to_end_snoc)
  show ?thesis
  proof (cases "length (m_Data v) = 1")
    case True
    then have "delete_at ?i (m_Data v) = []" "delete_at ?i (m_RevIDs v) = []"
      using n L(2) by (simp_all add: delete_at_def)
    with r True l1 v1(6) show ?thesis
      by (simp add: wf_clear) (simp add: clear_def retire_def)
  next
    case False
    with ne n have "1 < length (m_RevIDs v1)"
      using l1 by (cases "m_RevIDs v") auto
    from retire_wf [OF v1(2) this last1] r False l1 d v1(5,6,7) show ?thesis
      by (simp add: retire_def)
  qed
qed

lemma remove_valid_swap:
  assumes "wf_Vector v" "validID v h" "\<not> m_KeepOrder v"
  shows "\<exists>v'. remove v h = Inr v' \<and> wf_Vector v' \<and>
           m_KeepOrder v' = m_KeepOrder v \<and>
           m_Data v' = swap_remove_at (m_IDs v ! ID_value h) (m_Data v) \<and>
           m_RevIDs v' = swap_remove_at (m_IDs v ! ID_value h) (m_RevIDs v) \<and>
           m_FreeIDSlots v' = (if length (m_Data v) = 1 then [] else m_FreeIDSlots v @ [h]) \<and>
           m_IDs v' = (if length (m_Data v) = 1 then []
                       else (m_IDs v)[ID_value h := length (m_Data v) - 1,
                                      ID_value (last (m_RevIDs v)) := m_IDs v ! ID_value h])"
proof -
  let ?i = "m_IDs v ! ID_value h" and ?n = "length (m_RevIDs v)"
  from assms(1,2) have live: "h \<in> set (m_RevIDs v)" by (simp add: wf_validID_iff)
  note L = wf_live_index [OF assms(1) live]
  note n = wf_lengths(1) [OF assms(1)]
  have ne: "m_RevIDs v \<noteq> []" using live by auto
  then have nl: "?n - 1 < ?n" by simp
  have lst: "last (m_RevIDs v) = m_RevIDs v ! (?n - 1)" using ne by (rule last_conv_nth)
  let ?v1 = "swap_at v ?i (?n - 1)"
  have sw: "swapDataLocation v h (last (m_RevIDs v)) = Inr ?v1"
    using swapDataLocation_live [OF assms(1) L(2) nl] L(3) lst by simp
  have wf1: "wf_Vector ?v1" by (rule swap_at_wf [OF assms(1) L(2) nl])
  have l1: "length (m_Data ?v1) = length (m_Data v)" "length (m_RevIDs ?v1) = ?n"
    by (simp_all add: swap_at_def)
  have ne1: "m_Data ?v1 \<noteq> []" "m_RevIDs ?v1 \<noteq> []"
    using ne n by (auto simp: swap_at_def)
  have last1: "last (m_RevIDs ?v1) = h"
    using swap_then_last [OF L(2)] L(3) by (simp add: swap_at_def)
  have r: "remove v h = Inr (if length (m_Data ?v1) = 1 then clear (retire ?v1 h) else retire ?v1 h)"
    using assms(3) sw by (intro remove_unfold [OF L(1) ne _ ne1]) simp
  have de: "m_Data v \<noteq> []" using ne n by auto
  have d: "m_Data (retire ?v1 h) = swap_remove_at ?i (m_Data v)"
    "m_RevIDs (retire ?v1 h) = swap_remove_at ?i (m_RevIDs v)"
    using swap_then_pop [OF de, of ?i] swap_then_pop [OF ne, of ?i] n
    by (simp_all add: retire_def swap_at_def)
  have ids1: "m_IDs (retire ?v1 h) =
      (m_IDs v)[ID_value h := length (m_Data v) - 1, ID_value (last (m_RevIDs v)) := ?i]"
    using L(3) lst n by (simp add: retire_def swap_at_def)
  show ?thesis
  proof (cases "length (m_Data v) = 1")
    case True
    then have "swap_remove_at ?i (m_Data v) = []" "swap_remove_at ?i (m_RevIDs v) = []"
      using n length_swap_remove_at [of ?i "m_Data v"] length_swap_remove_at [of ?i "m_RevIDs v"]
      by simp_all
    with r True l1 show ?thesis
      by (simp add: wf_clear) (simp add: clear_def retire_def swap_at_def)
  next
    case False
    with ne n have "1 < length (m_RevIDs ?v1)"
      using l1 by (cases "m_RevIDs v") auto
    from retire_wf [OF wf1 this last1] r False l1 d ids1 show ?thesis
      by (simp add: retire_def swap_at_def)
  qed
qed

lemma get_live:
  assumes "wf_Vector v" "h \<in> set (m_RevIDs v)"
  shows "get v h = Inr (m_Data v ! (m_IDs v ! ID_value h))"
  using wf_live_index [OF assms] wf_lengths(1) [OF assms(1)] assms
  by (simp add: get_def wf_validID_iff)

lemma get_at_position:
  assumes "wf_Vector v" "p < length (m_RevIDs v)"
  shows "get v (m_RevIDs v ! p) = Inr (m_Data v ! p)"
  using get_live [OF assms(1), of "m_RevIDs v ! p"] wf_rev_nth(2) [OF assms] assms(2)
  by simp

lemma get_invalid:
  assumes "\<not> validID v h"
  shows "\<exists>msg. get v h = Inl (InvalidArgument msg)"
  using assms by (simp add: get_def)

lemma get_iff_zip:
  assumes "wf_Vector v"
  shows "get v h = Inr x \<longleftrightarrow> (x, h) \<in> set (zip (m_Data v) (m_RevIDs v))"
proof
  assume g: "get v h = Inr x"
  have "validID v h"
  proof (rule ccontr)
    assume "\<not> validID v h"
    from get_invalid [OF this] g show False by auto
  qed
  then have live: "h \<in> set (m_RevIDs v)" using assms by (simp add: wf_validID_iff)
  note L = wf_live_index [OF assms live]
  let ?p = "m_IDs v ! ID_value h"
  have "x = m_Data v ! ?p" using get_live [OF assms live] g by simp
  with L wf_lengths(1) [OF assms] show "(x, h) \<in> set (zip (m_Data v) (m_RevIDs v))"
    by (auto simp: in_set_zip)
next
  assume "(x, h) \<in> set (zip (m_Data v) (m_RevIDs v))"
  then obtain p where p: "m_Data v ! p = x" "m_RevIDs v ! p = h" "p < length (m_RevIDs v)"
    by (auto simp: in_set_zip)
  from get_at_position [OF assms p(3)] p show "get v h = Inr x" by simp
qed

lemma zip_swap_remove_at:
  assumes "length xs = length ys"
  shows "zip (swap_remove_at i xs) (swap_remove_at i ys) = swap_remove_at i (zip xs ys)"
proof (cases "xs = []")
  case True
  with assms show ?thesis by (simp add: swap_remove_at_def)
next
  case False
  with assms have ne: "ys \<noteq> []" by auto
  have l: "last (zip xs ys) = (last xs, last ys)"
    using False ne assms by (simp add: last_zip)
  show ?thesis
    using assms unfolding swap_remove_at_def l butlast_conv_take
    by (simp add: take_zip [symmetric] zip_update)
qed

lemma remove_valid:
  assumes "wf_Vector v" "validID v h"
  shows "\<exists>v'. remove v h = Inr v' \<and> wf_Vector v' \<and>
           m_KeepOrder v' = m_KeepOrder v \<and>
           length (m_Data v') = length (m_Data v) - 1 \<and>
           set (m_RevIDs v') = set (m_RevIDs v) - {h} \<and>
           set (zip (m_Data v') (m_RevIDs v')) =
             set (zip (m_Data v) (m_RevIDs v)) - {(m_Data v ! (m_IDs v ! ID_value h), h)} \<and>
           m_FreeIDSlots v' = (if length (m_Data v) = 1 then [] else m_FreeIDSlots v @ [h]) \<and>
           length (m_IDs v') = (if length (m_Data v) = 1 then 0 else length (m_IDs v))"
proof -
  let ?i = "m_IDs v ! ID_value h"
  let ?zs = "zip (m_Data v) (m_RevIDs v)"
  from assms have live: "h \<in> set (m_RevIDs v)" by (simp add: wf_validID_iff)
  note L = wf_live_index [OF assms(1) live]
  note n = wf_lengths(1) [OF assms(1)]
  note d = wf_distinct_tables(1) [OF assms(1)]
  have dz: "distinct ?zs" using d by (rule distinct_zipI2)
  have iz: "?i < length ?zs" using L(2) n by simp
  have zi: "?zs ! ?i = (m_Data v ! ?i, h)" using L(2,3) n by simp
  show ?thesis
  proof (cases "m_KeepOrder v")
    case True
    from remove_valid_keep_order [OF assms True] obtain v' where
      v': "remove v h = Inr v'" "wf_Vector v'" "m_KeepOrder v' = m_KeepOrder v"
        "m_Data v' = delete_at ?i (m_Data v)" "m_RevIDs v' = delete_at ?i (m_RevIDs v)"
        "m_FreeIDSlots v' = (if length (m_Data v) = 1 then [] else m_FreeIDSlots v @ [h])"
        "length (m_IDs v') = (if length (m_Data v) = 1 then 0 else length (m_IDs v))"
      by blast
    have "set (m_RevIDs v') = set (m_RevIDs v) - {h}"
      using set_delete_at [OF d L(2)] L(3) v'(5) by simp
    moreover have "set (zip (m_Data v') (m_RevIDs v')) = set ?zs - {(m_Data v ! ?i, h)}"
      using set_delete_at [OF dz iz] zi v'(4,5) zip_delete_at [OF n, of ?i] by simp
    moreover have "length (m_Data v') = length (m_Data v) - 1"
      using v'(4) L(2) n by (simp add: length_delete_at)
    ultimately show ?thesis using v' by blast
  next
    case False
    from remove_valid_swap [OF assms False] obtain v' where
      v': "remove v h = Inr v'" "wf_Vector v'" "m_KeepOrder v' = m_KeepOrder v"
        "m_Data v' = swap_remove_at ?i (m_Data v)" "m_RevIDs v' = swap_remove_at ?i (m_RevIDs v)"
        "m_FreeIDSlots v' = (if length (m_Data v) = 1 then [] else m_FreeIDSlots v @ [h])"
        "m_IDs v' = (if length (m_Data v) = 1 then []
                       else (m_IDs v)[ID_value h := length (m_Data v) - 1,
                                      ID_value (last (m_RevIDs v)) := m_IDs v ! ID_value h])"
      by blast
    have "set (m_RevIDs v') = set (m_RevIDs v) - {h}"
      using set_swap_remove_at [OF d L(2)] L(3) v'(5) by simp
    moreover have "set (zip (m_Data v') (m_RevIDs v')) = set ?zs - {(m_Data v ! ?i, h)}"
      using set_swap_remove_at [OF dz iz] zi v'(4,5) zip_swap_remove_at [OF n, of ?i] by simp
    moreover have "length (m_Data v') = length (m_Data v) - 1"
      using v'(4) by (simp add: length_swap_remove_at)
    moreover have "length (m_IDs v') = (if length (m_Data v) = 1 then 0 else length (m_IDs v))"
      using v'(7) by simp
    ultimately show ?thesis using v'(1,2,3,6) by blast
  qed
qed

lemma size_sub_word:
  assumes "a < 2 ^ 64" "b < 2 ^ 64"
  shows "size_sub a b = unat (word_of_nat a - word_of_nat b :: 64 word)"
proof -
  have "unat (word_of_nat a :: 64 word) = a" "unat (word_of_nat b :: 64 word) = b"
    using assms by (simp_all add: unat_of_nat)
  then show ?thesis
    by (simp add: size_sub_def unat_sub_if_size word_size)
qed

lemma wf_Vector_new: "wf_Vector (Vector_new k)"
  by (simp add: wf_Vector_def Vector_new_def slots_def)

lemma validID_Vector_new: "\<not> validID (Vector_new k) h"
  by (simp add: validID_def Vector_new_def)

lemma wf_valid_set: "wf_Vector v \<Longrightarrow> {h. validID v h} = set (m_RevIDs v)"
  by (auto simp: wf_validID_iff)

lemma exec_step:
  assumes "wf_Vector v" "case c of Remove h \<Rightarrow> validID v h | _ \<Rightarrow> True"
  shows "\<exists>ev v'. exec c v = Inr (ev, v') \<and> wf_Vector v' \<and>
           m_KeepOrder v' = m_KeepOrder v \<and>
           {h. validID v' h} = track {h. validID v h} ev"
proof (cases c)
  case (Push x)
  from push_wf [OF assms(1), of x] obtain v' h where
    p: "push v x = Inr (v', h)" "wf_Vector v'" "m_RevIDs v' = m_RevIDs v @ [h]"
      "m_KeepOrder v' = m_KeepOrder v" by blast
  then show ?thesis
    using Push assms(1) by (simp add: wf_valid_set)
next
  case (Emplace x)
  from push_wf [OF assms(1), of x] obtain v' h where
    p: "push v x = Inr (v', h)" "wf_Vector v'" "m_RevIDs v' = m_RevIDs v @ [h]"
      "m_KeepOrder v' = m_KeepOrder v" by blast
  then show ?thesis
    using Emplace assms(1) by (simp add: wf_valid_set emplace_eq_push)
next
  case (Remove h)
  with assms(2) have "validID v h" by simp
  from remove_valid [OF assms(1) this] obtain v' where
    r: "remove v h = Inr v'" "wf_Vector v'" "m_KeepOrder v' = m_KeepOrder v"
      "set (m_RevIDs v') = set (m_RevIDs v) - {h}" by blast
  then show ?thesis
    using Remove assms(1) by (simp add: wf_valid_set)
next
  case Clear
  then show ?thesis
    using wf_clear [of v] by (simp add: wf_valid_set) (simp add: clear_def)
next
  case (Get h)
  show ?thesis
  proof (cases "validID v h")
    case True
    with assms(1) have "h \<in> set (m_RevIDs v)" by (simp add: wf_validID_iff)
    from get_live [OF assms(1) this] Get assms(1) show ?thesis by simp
  next
    case False
    from get_invalid [OF this] Get assms(1) show ?thesis by auto
  qed
next
  case (Reserve lim n)
  then show ?thesis using assms(1) by (simp add: reserve_def)
qed

lemma run_valid:
  assumes "wf_Vector v" "removes_valid cs v"
  shows "\<exists>evs v'. run cs v = Inr (evs, v') \<and> wf_Vector v' \<and>
           m_KeepOrder v' = m_KeepOrder v \<and>
           {h. validID v' h} = foldl track {h. validID v h} evs"
  using assms
proof (induction cs arbitrary: v)
  case Nil
  then show ?case by simp
next
  case (Cons c cs)
  from Cons.prems(2) have c: "case c of Remove h \<Rightarrow> validID v h | _ \<Rightarrow> True" by simp
  from exec_step [OF Cons.prems(1) c] obtain ev v1 where
    e: "exec c v = Inr (ev, v1)" "wf_Vector v1" "m_KeepOrder v1 = m_KeepOrder v"
      "{h. validID v1 h} = track {h. validID v h} ev" by blast
  from Cons.prems(2) e(1) have "removes_valid cs v1" by simp
  from Cons.IH [OF e(2) this] obtain evs v' where
    r: "run cs v1 = Inr (evs, v')" "wf_Vector v'" "m_KeepOrder v' = m_KeepOrder v1"
      "{h. validID v' h} = foldl track {h. validID v1 h} evs" by blast
  from e r show ?case by simp
qed

lemma run_new:
  fixes cs :: "'a call list"
  assumes "removes_valid cs (Vector_new k)"
  shows "\<exists>evs v. run cs (Vector_new k) = Inr (evs, v) \<and> wf_Vector v \<and>
           {h. validID v h} = live_handles evs"
proof -
  from run_valid [OF wf_Vector_new assms] obtain evs v where
    r: "run cs (Vector_new k) = Inr (evs, v)" "wf_Vector v"
      "{h. validID v h} = foldl track {h. validID (Vector_new k :: 'a Vector) h} evs"
    by (elim exE conjE) (rule that)
  from r(3) have "{h. validID v h} = live_handles evs"
    by (simp add: live_handles_def validID_Vector_new)
  with r(1,2) show ?thesis by (intro exI conjI)
qed

lemma wf_consistent:
  assumes "wf_Vector v"
  shows "length (m_Data v) = length (m_RevIDs v)"
    and "card {h. validID v h} = length (m_RevIDs v)"
    and "validID v h \<Longrightarrow> \<exists>p. indexOf v h = Inr p \<and> idAt v p = Inr h"
    and "validID v h \<Longrightarrow> validID v g \<Longrightarrow> indexOf v h = indexOf v g \<Longrightarrow> h = g"
proof -
  show "length (m_Data v) = length (m_RevIDs v)" by (rule wf_lengths(1) [OF assms])
  show "card {h. validID v h} = length (m_RevIDs v)"
    using wf_distinct_tables(1) [OF assms] by (simp add: wf_valid_set [OF assms] distinct_card)
  have i: "indexOf v h = Inr (m_IDs v ! ID_value h) \<and> idAt v (m_IDs v ! ID_value h) = Inr h"
    if "validID v h" for h
  proof -
    from that assms have "h \<in> set (m_RevIDs v)" by (simp add: wf_validID_iff)
    from wf_live_index [OF assms this] show ?thesis by (simp add: indexOf_def idAt_def)
  qed
  show "\<exists>p. indexOf v h = Inr p \<and> idAt v p = Inr h" if "validID v h"
    using i [OF that] by blast
  show "h = g" if "validID v h" "validID v g" "indexOf v h = indexOf v g"
  proof -
    have "Inr (m_IDs v ! ID_value h) = (Inr (m_IDs v ! ID_value g) :: error + nat)"
      using i [OF that(1)] i [OF that(2)] that(3) by metis
    then have "m_IDs v ! ID_value h = m_IDs v ! ID_value g" by (rule Inr_inject)
    then have "(Inr h :: error + ID) = Inr g"
      using i [OF that(1)] i [OF that(2)] by metis
    then show ?thesis by (rule Inr_inject)
  qed
qed

lemma remove_others:
  assumes "wf_Vector v" "validID v h" "remove v h = Inr v'"
  shows "wf_Vector v'" and "\<not> validID v' h" and "size_of v' = size_of v - 1"
    and "validID v g \<Longrightarrow> g \<noteq> h \<Longrightarrow> validID v' g \<and> get v' g = get v g"
    and "validID v' g \<Longrightarrow> validID v g"
proof -
  from remove_valid [OF assms(1,2)] assms(3) have
    r: "wf_Vector v'" "length (m_Data v') = length (m_Data v) - 1"
      "set (m_RevIDs v') = set (m_RevIDs v) - {h}"
      "set (zip (m_Data v') (m_RevIDs v')) =
         set (zip (m_Data v) (m_RevIDs v)) - {(m_Data v ! (m_IDs v ! ID_value h), h)}"
    by auto
  show "wf_Vector v'" by (rule r(1))
  show "\<not> validID v' h" using r(1,3) by (simp add: wf_validID_iff)
  show "size_of v' = size_of v - 1" using r(2) by (simp add: size_of_def)
  show "validID v' g \<Longrightarrow> validID v g"
    using r(1,3) assms(1) by (simp add: wf_validID_iff)
  show "validID v' g \<and> get v' g = get v g" if g: "validID v g" "g \<noteq> h"
  proof -
    from g(1) assms(1) have live: "g \<in> set (m_RevIDs v)" by (simp add: wf_validID_iff)
    let ?x = "m_Data v ! (m_IDs v ! ID_value g)"
    have gx: "get v g = Inr ?x" by (rule get_live [OF assms(1) live])
    then have "(?x, g) \<in> set (zip (m_Data v) (m_RevIDs v))"
      using assms(1) by (simp add: get_iff_zip)
    with g(2) r(4) have "(?x, g) \<in> set (zip (m_Data v') (m_RevIDs v'))" by simp
    then have "get v' g = Inr ?x" using r(1) by (simp add: get_iff_zip)
    moreover have "validID v' g" using live g(2) r(1,3) by (simp add: wf_validID_iff)
    ultimately show ?thesis using gx by simp
  qed
qed

lemma indexOf_valid:
  assumes "wf_Vector v" "validID v h" "indexOf v h = Inr i"
  shows "i = m_IDs v ! ID_value h" "i < length (m_Data v)"
proof -
  from assms(1,2) have live: "h \<in> set (m_RevIDs v)" by (simp add: wf_validID_iff)
  note L = wf_live_index [OF assms(1) live]
  from assms(3) L(1) show "i = m_IDs v ! ID_value h" by (simp add: indexOf_def)
  with L(2) wf_lengths(1) [OF assms(1)] show "i < length (m_Data v)" by simp
qed

lemma reasons_differ:
  "a @ ''ID out of bounds.'' \<noteq> b @ ''The object with this id has been deleted.''"
proof
  assume e: "a @ ''ID out of bounds.'' = b @ ''The object with this id has been deleted.''"
  have A: "a @ ''ID out of bounds.'' = ((a @ ''ID out of bound'') @ [CHR ''s'']) @ [CHR ''.'']"
    by simp
  have B: "b @ ''The object with this id has been deleted.'' =
      ((b @ ''The object with this id has been delete'') @ [CHR ''d'']) @ [CHR ''.'']"
    by simp
  from e have "((a @ ''ID out of bound'') @ [CHR ''s'']) @ [CHR ''.''] =
      ((b @ ''The object with this id has been delete'') @ [CHR ''d'']) @ [CHR ''.'']"
    unfolding A B .
  then have "(a @ ''ID out of bound'') @ [CHR ''s''] =
      (b @ ''The object with this id has been delete'') @ [CHR ''d'']"
    by (simp only: append1_eq_conv)
  then have "CHR ''s'' = CHR ''d''"
    by (simp only: append1_eq_conv)
  then show False by simp
qed

lemma remove_no_reset_valid:
  assumes "wf_Vector v" "validID v h"
  shows "\<exists>u. remove_no_reset v h = Inr u \<and>
           m_FreeIDSlots u = m_FreeIDSlots v @ [h] \<and>
           length (m_IDs u) = length (m_IDs v) \<and>
           length (m_Data u) = length (m_Data v) - 1"
proof -
  let ?i = "m_IDs v ! ID_value h" and ?n = "length (m_RevIDs v)"
  from assms have live: "h \<in> set (m_RevIDs v)" by (simp add: wf_validID_iff)
  note L = wf_live_index [OF assms(1) live]
  note n = wf_lengths(1) [OF assms(1)]
  have ne: "m_RevIDs v \<noteq> []" using live by auto
  have "\<exists>v1. (if m_KeepOrder v then remove_loop v ?i
               else swapDataLocation v h (last (m_RevIDs v))) = Inr v1 \<and>
          length (m_Data v1) = length (m_Data v) \<and>
          length (m_RevIDs v1) = length (m_RevIDs v) \<and>
          m_FreeIDSlots v1 = m_FreeIDSlots v \<and> length (m_IDs v1) = length (m_IDs v)"
  proof (cases "m_KeepOrder v")
    case True
    from remove_loop_live [OF assms(1) L(2)] obtain v1 where
      v1: "remove_loop v ?i = Inr v1"
        "m_Data v1 = move_to_end ?i (m_Data v)"
        "m_RevIDs v1 = move_to_end ?i (m_RevIDs v)"
        "m_FreeIDSlots v1 = m_FreeIDSlots v"
        "length (m_IDs v1) = length (m_IDs v)" by blast
    then show ?thesis using True L(2) n by (simp add: length_move_to_end)
  next
    case False
    have nl: "?n - 1 < ?n" using ne by simp
    have lst: "last (m_RevIDs v) = m_RevIDs v ! (?n - 1)" using ne by (rule last_conv_nth)
    have "swapDataLocation v h (last (m_RevIDs v)) = Inr (swap_at v ?i (?n - 1))"
      using swapDataLocation_live [OF assms(1) L(2) nl] L(3) lst by simp
    then show ?thesis using False by (simp add: swap_at_def)
  qed
  then obtain v1 where
    v1: "(if m_KeepOrder v then remove_loop v ?i
          else swapDataLocation v h (last (m_RevIDs v))) = Inr v1"
      "length (m_Data v1) = length (m_Data v)" "length (m_RevIDs v1) = length (m_RevIDs v)"
      "m_FreeIDSlots v1 = m_FreeIDSlots v" "length (m_IDs v1) = length (m_IDs v)" by blast
  have ne1: "m_Data v1 \<noteq> []" "m_RevIDs v1 \<noteq> []" using v1(2,3) ne n by auto
  from remove_no_reset_unfold [OF L(1) ne v1(1) ne1] v1(2,4,5) show ?thesis
    by (simp add: retire_def)
qed

lemma wf_stale:
  assumes "wf_Vector v" "ID_value h < length (m_IDs v)" "h \<in> set (m_FreeIDSlots v)"
  shows "length (m_Data v) \<le> m_IDs v ! ID_value h" and "m_RevIDs v \<noteq> []" and "m_Data v \<noteq> []"
proof -
  show "length (m_Data v) \<le> m_IDs v ! ID_value h"
    using wf_free_index(2) [OF assms(1,3)] wf_lengths(1) [OF assms(1)] by simp
  from assms(2) have "m_IDs v \<noteq> []" by auto
  with assms(1) show "m_Data v \<noteq> []" by (auto simp: wf_Vector_def)
  with wf_lengths(1) [OF assms(1)] show "m_RevIDs v \<noteq> []" by auto
qed

lemma remove_stale_keep_order:
  assumes "wf_Vector v" "ID_value h < length (m_IDs v)" "h \<in> set (m_FreeIDSlots v)"
    and "m_KeepOrder v"
  shows "remove_no_reset v h = Inr (retire v h)"
proof -
  note s = wf_stale [OF assms(1,2,3)]
  have "\<not> m_IDs v ! ID_value h < size_sub (length (m_Data v)) 1"
    using s(1,3) by (cases "m_Data v") (simp_all add: size_sub_def)
  then have "remove_loop v (m_IDs v ! ID_value h) = Inr v"
    by (subst remove_loop.simps) simp
  with assms(4) have "(if m_KeepOrder v then remove_loop v (m_IDs v ! ID_value h)
          else swapDataLocation v h (last (m_RevIDs v))) = Inr v" by simp
  from remove_no_reset_unfold [OF assms(2) s(2) this s(3,2)] show ?thesis .
qed

lemma remove_stale_swap:
  assumes "wf_Vector v" "ID_value h < length (m_IDs v)" "h \<in> set (m_FreeIDSlots v)"
    and "\<not> m_KeepOrder v"
  shows "remove v h = Inl OutOfBounds"
proof -
  note s = wf_stale [OF assms(1,2,3)]
  have "swapDataLocation v h (last (m_RevIDs v)) = Inl OutOfBounds"
    using s(1) by (simp add: swapDataLocation_def Let_def)
  then show ?thesis
    using assms(4) by (simp add: remove_def remove_no_reset_def Let_def)
qed

lemma remove_out_of_range:
  assumes "\<not> ID_value h < length (m_IDs v)"
  shows "remove v h = Inl OutOfBounds"
  using assms by (simp add: remove_def remove_no_reset_def)

lemma push_round_trip_wf:
  assumes "wf_Vector v"
  shows "\<exists>v' h. push v x = Inr (v', h) \<and> validID v' h \<and> get v' h = Inr x"
proof -
  from push_wf [OF assms, of x] obtain v' h where
    p: "push v x = Inr (v', h)" "wf_Vector v'"
      "m_Data v' = m_Data v @ [x]" "m_RevIDs v' = m_RevIDs v @ [h]" by blast
  have "validID v' h" using p(2,4) by (simp add: wf_validID_iff)
  moreover have "(x, h) \<in> set (zip (m_Data v') (m_RevIDs v'))"
    using p(3,4) wf_lengths(1) [OF assms] by simp
  then have "get v' h = Inr x" using p(2) by (simp add: get_iff_zip)
  ultimately show ?thesis using p(1) by blast
qed

lemma remove_keeps_order_wf:
  assumes "wf_Vector v" "validID v h" "m_KeepOrder v" "indexOf v h = Inr i"
  shows "\<exists>v'. remove v h = Inr v' \<and>
           m_Data v' = take i (m_Data v) @ drop (Suc i) (m_Data v) \<and>
           m_RevIDs v' = take i (m_RevIDs v) @ drop (Suc i) (m_RevIDs v) \<and>
           size_of v' = size_of v - 1 \<and>
           (\<forall>p. p < i \<longrightarrow> dataAt v' p = dataAt v p) \<and>
           (\<forall>p. i \<le> p \<and> p < size_of v' \<longrightarrow> dataAt v' p = dataAt v (Suc p)) \<and>
           \<not> validID v' h \<and>
           (\<forall>g. validID v g \<and> g \<noteq> h \<longrightarrow> validID v' g \<and> get v' g = get v g)"
proof -
  note i = indexOf_valid [OF assms(1,2,4)]
  from remove_valid_keep_order [OF assms(1,2,3)] i(1) obtain v' where
    v': "remove v h = Inr v'" "m_Data v' = delete_at i (m_Data v)"
      "m_RevIDs v' = delete_at i (m_RevIDs v)" by auto
  note o = remove_others [OF assms(1,2) v'(1)]
  have d: "m_Data v' = take i (m_Data v) @ drop (Suc i) (m_Data v)"
    using v'(2) by (simp add: delete_at_def)
  have l: "length (m_Data v') = length (m_Data v) - 1"
    using o(3) by (simp add: size_of_def)
  have "dataAt v' p = dataAt v p" if "p < i" for p
    using that i(2) l unfolding dataAt_def d by (simp add: nth_append)
  moreover have "dataAt v' p = dataAt v (Suc p)" if "i \<le> p" "p < size_of v'" for p
  proof -
    from that l i(2) have p: "p < length (m_Data v')" "Suc p < length (m_Data v)"
      by (simp_all add: size_of_def)
    have "m_Data v' ! p = m_Data v ! Suc p"
      unfolding d using that(1) i(2) p(2) by (simp add: nth_append min_def)
    with p show ?thesis by (simp add: dataAt_def)
  qed
  ultimately show ?thesis
    using v'(1,3) d o(2,3,4) by (simp add: delete_at_def)
qed

lemma get_cases_wf:
  assumes "wf_Vector v"
  shows "(\<not> ID_value h < length (m_IDs v) \<longrightarrow>
            get v h = Inl (InvalidArgument
              (''ID: '' @ to_string (ID_value h) @ '' is not a valid ID. '' @ ''ID out of bounds.'')) \<and>
            exec (Get h) v = Inr (Threw
              (''ID: '' @ to_string (ID_value h) @ '' is not a valid ID. '' @ ''ID out of bounds.''), v)) \<and>
         (ID_value h < length (m_IDs v) \<and> h \<in> set (m_FreeIDSlots v) \<longrightarrow>
            get v h = Inl (InvalidArgument
              (''ID: '' @ to_string (ID_value h) @ '' is not a valid ID. '' @
               ''The object with this id has been deleted.'')) \<and>
            exec (Get h) v = Inr (Threw
              (''ID: '' @ to_string (ID_value h) @ '' is not a valid ID. '' @
               ''The object with this id has been deleted.''), v)) \<and>
         (ID_value h < length (m_IDs v) \<and> h \<notin> set (m_FreeIDSlots v) \<longrightarrow>
            (\<exists>x. get v h = Inr x \<and> exec (Get h) v = Inr (Got x, v))) \<and>
         (\<forall>a b. a @ ''ID out of bounds.'' \<noteq> b @ ''The object with this id has been deleted.'')"
proof -
  have "\<exists>x. get v h = Inr x \<and> exec (Get h) v = Inr (Got x, v)"
    if "ID_value h < length (m_IDs v)" "h \<notin> set (m_FreeIDSlots v)"
  proof -
    from that have "validID v h" by (simp add: validID_def)
    with assms have "h \<in> set (m_RevIDs v)" by (simp add: wf_validID_iff)
    from get_live [OF assms this] show ?thesis by simp
  qed
  moreover have "get v h = Inl (InvalidArgument
              (''ID: '' @ to_string (ID_value h) @ '' is not a valid ID. '' @ ''ID out of bounds.''))"
    if "\<not> ID_value h < length (m_IDs v)"
    using that by (simp add: get_def validID_def)
  moreover have "get v h = Inl (InvalidArgument
              (''ID: '' @ to_string (ID_value h) @ '' is not a valid ID. '' @
               ''The object with this id has been deleted.''))"
    if "ID_value h < length (m_IDs v)" "h \<in> set (m_FreeIDSlots v)"
    using that by (simp add: get_def validID_def)
  ultimately show ?thesis
    using reasons_differ by (simp del: append.simps)
qed

lemma remove_unchecked_wf:
  assumes "wf_Vector v"
  shows "(validID v h \<longrightarrow> (\<exists>v'. remove v h = Inr v' \<and> wf_Vector v')) \<and>
         (\<not> ID_value h < length (m_IDs v) \<longrightarrow> remove v h = Inl OutOfBounds) \<and>
         (ID_value h < length (m_IDs v) \<and> h \<in> set (m_FreeIDSlots v) \<and> \<not> m_KeepOrder v \<longrightarrow>
            remove v h = Inl OutOfBounds) \<and>
         (ID_value h < length (m_IDs v) \<and> h \<in> set (m_FreeIDSlots v) \<and> m_KeepOrder v \<and>
          size_of v = 1 \<longrightarrow>
            remove v h = Inr (Vector_new True)) \<and>
         (ID_value h < length (m_IDs v) \<and> h \<in> set (m_FreeIDSlots v) \<and> m_KeepOrder v \<and>
          size_of v \<noteq> 1 \<longrightarrow>
            (\<exists>v'. remove v h = Inr v' \<and>
                  v' = v\<lparr>m_FreeIDSlots := m_FreeIDSlots v @ [h],
                         m_Data := butlast (m_Data v), m_RevIDs := butlast (m_RevIDs v)\<rparr> \<and>
                  \<not> distinct (m_FreeIDSlots v') \<and>
                  \<not> wf_Vector v' \<and>
                  validID v' (last (m_RevIDs v)) \<and>
                  get v' (last (m_RevIDs v)) = Inl OutOfBounds \<and>
                  (\<exists>v''. push v' x = Inr (v'', h) \<and>
                         h \<in> set (m_RevIDs v'') \<and> h \<in> set (m_FreeIDSlots v''))))"
proof -
  have a: "validID v h \<longrightarrow> (\<exists>v'. remove v h = Inr v' \<and> wf_Vector v')"
    using remove_valid [OF assms, of h] by blast
  have b: "\<not> ID_value h < length (m_IDs v) \<longrightarrow> remove v h = Inl OutOfBounds"
    using remove_out_of_range [of h v] by blast
  have c: "ID_value h < length (m_IDs v) \<and> h \<in> set (m_FreeIDSlots v) \<and> \<not> m_KeepOrder v \<longrightarrow>
            remove v h = Inl OutOfBounds"
    using remove_stale_swap [OF assms, of h] by blast
  have d: "remove v h = Inr (Vector_new True)"
    if s: "ID_value h < length (m_IDs v)" "h \<in> set (m_FreeIDSlots v)" "m_KeepOrder v"
      and one: "size_of v = 1"
  proof -
    from one have "butlast (m_Data v) = []"
      by (cases "m_Data v") (simp_all add: size_of_def)
    with remove_stale_keep_order [OF assms s] s(3) show ?thesis
      by (simp add: remove_def retire_def clear_def Vector_new_def)
  qed
  have e: "\<exists>v'. remove v h = Inr v' \<and>
                  v' = v\<lparr>m_FreeIDSlots := m_FreeIDSlots v @ [h],
                         m_Data := butlast (m_Data v), m_RevIDs := butlast (m_RevIDs v)\<rparr> \<and>
                  \<not> distinct (m_FreeIDSlots v') \<and>
                  \<not> wf_Vector v' \<and>
                  validID v' (last (m_RevIDs v)) \<and>
                  get v' (last (m_RevIDs v)) = Inl OutOfBounds \<and>
                  (\<exists>v''. push v' x = Inr (v'', h) \<and>
                         h \<in> set (m_RevIDs v'') \<and> h \<in> set (m_FreeIDSlots v''))"
    if s: "ID_value h < length (m_IDs v)" "h \<in> set (m_FreeIDSlots v)" "m_KeepOrder v"
      and more: "size_of v \<noteq> 1"
  proof -
    let ?v' = "retire v h" and ?g = "last (m_RevIDs v)"
    note st = wf_stale [OF assms s(1,2)]
    note n = wf_lengths(1) [OF assms]
    from st(3) more have "butlast (m_Data v) \<noteq> []"
      by (cases "m_Data v" rule: rev_cases) (auto simp: size_of_def)
    with remove_stale_keep_order [OF assms s] have r: "remove v h = Inr ?v'"
      by (simp add: remove_def retire_def)
    have nd: "\<not> distinct (m_FreeIDSlots ?v')" using s(2) by (simp add: retire_def)
    then have nw: "\<not> wf_Vector ?v'" using wf_distinct_tables(2) [of ?v'] by blast
    have gl: "?g \<in> set (m_RevIDs v)" using st(2) by simp
    have gp: "m_RevIDs v ! (length (m_RevIDs v) - 1) = ?g"
      using st(2) by (simp add: last_conv_nth)
    have "length (m_RevIDs v) - 1 < length (m_RevIDs v)" using st(2) by simp
    from wf_rev_nth [OF assms this] gp
    have gi: "ID_value ?g < length (m_IDs v)" "m_IDs v ! ID_value ?g = length (m_RevIDs v) - 1"
      by simp_all
    have gf: "?g \<notin> set (m_FreeIDSlots v)" using wf_distinct_tables(3) [OF assms] gl by blast
    with s(2) have gh: "?g \<noteq> h" by blast
    have va: "validID ?v' ?g" using gi(1) gf gh by (simp add: validID_def retire_def)
    have ge: "get ?v' ?g = Inl OutOfBounds"
      using va gi n by (simp add: get_def retire_def)
    have ne: "m_FreeIDSlots ?v' \<noteq> []" and la: "last (m_FreeIDSlots ?v') = h"
      by (simp_all add: retire_def)
    have hl: "ID_value (last (m_FreeIDSlots ?v')) < length (m_IDs ?v')"
      using s(1) by (simp add: retire_def)
    have pu: "\<exists>v''. push ?v' x = Inr (v'', h) \<and>
                         h \<in> set (m_RevIDs v'') \<and> h \<in> set (m_FreeIDSlots v'')"
      unfolding push_recycle [OF ne hl] using s(2) by (simp add: retire_def)
    from r nd nw va ge pu show ?thesis by (simp add: retire_def)
  qed
  from a b c d e show ?thesis by blast
qed

lemma run_new_order:
  assumes "removes_valid cs (Vector_new k)" "run cs (Vector_new k) = Inr (evs, v)"
  shows "wf_Vector v" and "m_KeepOrder v = k"
proof -
  from run_valid [OF wf_Vector_new assms(1)] assms(2)
  have "wf_Vector v \<and> m_KeepOrder v = m_KeepOrder (Vector_new k :: 'a Vector)" by auto
  then show "wf_Vector v" and "m_KeepOrder v = k" by (simp_all add: Vector_new_def)
qed

lemma swapDataLocation_preserves:
  assumes "swapDataLocation v a b = Inr v'"
  shows "length (m_Data v') = length (m_Data v)" "length (m_IDs v') = length (m_IDs v)"
    "length (m_RevIDs v') = length (m_RevIDs v)" "m_FreeIDSlots v' = m_FreeIDSlots v"
    "m_KeepOrder v' = m_KeepOrder v"
  using assms by (auto simp: swapDataLocation_def Let_def split: if_splits)

lemma remove_loop_preserves:
  "remove_loop v i = Inr v' \<Longrightarrow>
     length (m_Data v') = length (m_Data v) \<and> length (m_IDs v') = length (m_IDs v) \<and>
     length (m_RevIDs v') = length (m_RevIDs v) \<and> m_FreeIDSlots v' = m_FreeIDSlots v \<and>
     m_KeepOrder v' = m_KeepOrder v"
proof (induction v i arbitrary: v' rule: remove_loop.induct)
  case (1 v i)
  show ?case
  proof (cases "i < size_sub (length (m_Data v)) 1")
    case False
    with "1.prems" have "v' = v" by (subst (asm) remove_loop.simps) simp
    then show ?thesis by simp
  next
    case True
    from "1.prems" True obtain a b v1 where
      s: "idAt v i = Inr a" "idAt v (i + 1) = Inr b" "swapDataLocation v a b = Inr v1"
        "remove_loop v1 (i + 1) = Inr v'"
      by (subst (asm) remove_loop.simps) (auto split: sum.splits)
    from "1.IH" [OF True s(1) s(2) s(3) s(4)] swapDataLocation_preserves [OF s(3)]
    show ?thesis by simp
  qed
qed

lemma remove_no_reset_shape:
  assumes "remove_no_reset v h = Inr u"
  shows "ID_value h < length (m_IDs v)" "length (m_IDs u) = length (m_IDs v)"
    "m_FreeIDSlots u = m_FreeIDSlots v @ [h]" "length (m_Data u) = length (m_Data v) - 1"
    "length (m_RevIDs u) = length (m_RevIDs v) - 1" "m_KeepOrder u = m_KeepOrder v"
proof -
  from assms show r: "ID_value h < length (m_IDs v)"
    by (auto simp: remove_no_reset_def split: if_splits)
  from assms obtain v1 where
    v1: "(if m_KeepOrder v then remove_loop v (m_IDs v ! ID_value h)
          else swapDataLocation v h (last (m_RevIDs v))) = Inr v1"
      "u = retire v1 h"
    by (auto simp: remove_no_reset_def Let_def retire_def split: if_splits sum.splits)
  have p: "length (m_Data v1) = length (m_Data v) \<and> length (m_IDs v1) = length (m_IDs v) \<and>
     length (m_RevIDs v1) = length (m_RevIDs v) \<and> m_FreeIDSlots v1 = m_FreeIDSlots v \<and>
     m_KeepOrder v1 = m_KeepOrder v"
  proof (cases "m_KeepOrder v")
    case True
    with v1(1) have "remove_loop v (m_IDs v ! ID_value h) = Inr v1" by simp
    from remove_loop_preserves [OF this] show ?thesis .
  next
    case False
    with v1(1) have "swapDataLocation v h (last (m_RevIDs v)) = Inr v1" by simp
    from swapDataLocation_preserves [OF this] show ?thesis by simp
  qed
  from p v1(2) show "length (m_IDs u) = length (m_IDs v)"
    "m_FreeIDSlots u = m_FreeIDSlots v @ [h]" "length (m_Data u) = length (m_Data v) - 1"
    "length (m_RevIDs u) = length (m_RevIDs v) - 1" "m_KeepOrder u = m_KeepOrder v"
    by (simp_all add: retire_def)
qed

lemma remove_cases:
  assumes "remove v h = Inr v'"
  shows "\<exists>u. remove_no_reset v h = Inr u \<and> v' = (if m_Data u = [] then clear u else u)"
  using assms by (auto simp: remove_def split: sum.splits)

section \<open>Properties of the container\<close>

text \<open>
  C1, as stated, fails: the order-preserving \<open>remove\<close> accepts a handle that is already
  free. After \<open>push A, push B, push C, remove h0, remove h0, push D\<close> the last \<open>push\<close>
  has returned \<open>h0\<close>, nothing has removed it since, and \<open>validID h0\<close> is false.
\<close>

theorem validID_iff_live_handle_counterexample:
  "run [Push ''A'', Push ''B'', Push ''C'', Remove (ID 0), Remove (ID 0), Push ''D'']
       (Vector_new True) =
     Inr ([Returned (ID 0), Returned (ID 1), Returned (ID 2), Removed (ID 0), Removed (ID 0),
           Returned (ID 0)],
          \<lparr>m_KeepOrder = True, m_Data = [''B'', ''D''], m_IDs = [1, 0, 1],
             m_RevIDs = [ID 1, ID 0], m_FreeIDSlots = [ID 0]\<rparr>) \<and>
   ID 0 \<in> live_handles [Returned (ID 0), Returned (ID 1), Returned (ID 2), Removed (ID 0),
                          Removed (ID 0), Returned (ID 0) :: string event] \<and>
   \<not> validID \<lparr>m_KeepOrder = True, m_Data = [''B'', ''D''], m_IDs = [1, 0, 1],
                m_RevIDs = [ID 1, ID 0], m_FreeIDSlots = [ID 0]\<rparr> (ID 0)"
  by (simp add: Let_def push_def addID_def remove_def remove_no_reset_def remove_loop.simps
      size_sub_def idAt_def swapDataLocation_def clear_def Vector_new_def live_handles_def
      validID_def)

text \<open>
  C1, amended. Take any sequence of calls on a new container in which every \<open>remove\<close>
  is given a handle that is valid at that moment. The sequence runs without an
  out-of-bounds access, and afterwards \<open>validID h\<close> holds exactly for the handles \<open>h\<close>
  that \<open>push\<close> or \<open>emplace\<close> returned and that were not passed to \<open>remove\<close> since, with
  no \<open>clear\<close> in between.
\<close>

theorem validID_iff_live_handle:
  assumes "removes_valid cs (Vector_new k)"
  shows "\<exists>evs v. run cs (Vector_new k) = Inr (evs, v) \<and>
           (\<forall>h. validID v h \<longleftrightarrow> h \<in> live_handles evs)"
proof -
  from run_new [OF assms] obtain evs v where
    r: "run cs (Vector_new k) = Inr (evs, v)" "{h. validID v h} = live_handles evs"
    by (elim exE conjE) (rule that)
  from r(2) have "\<forall>h. validID v h \<longleftrightarrow> h \<in> live_handles evs" by blast
  with r(1) show ?thesis by blast
qed

theorem validID_iff_live_handle_witness:
  "removes_valid [Push ''A'', Push ''B'', Remove (ID 0), Emplace ''C'', Get (ID 5), Remove (ID 1)]
     (Vector_new False) \<and>
   (\<exists>evs v. run [Push ''A'', Push ''B'', Remove (ID 0), Emplace ''C'', Get (ID 5), Remove (ID 1)]
               (Vector_new False) = Inr (evs, v) \<and>
            (\<forall>h. validID v h \<longleftrightarrow> h \<in> live_handles evs))"
proof -
  have "removes_valid [Push ''A'', Push ''B'', Remove (ID 0), Emplace ''C'', Get (ID 5), Remove (ID 1)]
     (Vector_new False)"
    by (simp add: Let_def push_def emplace_def addID_def remove_def remove_no_reset_def
        size_sub_def swapDataLocation_def clear_def Vector_new_def validID_def get_def)
  with validID_iff_live_handle [of _ False] show ?thesis by blast
qed

text \<open>
  C2, as stated, fails in a container that an unchecked \<open>remove\<close> has damaged. After
  \<open>push A, push B, push C, remove h0, remove h0\<close> in an order-preserving container, none
  of them out of bounds, \<open>push D\<close> returns \<open>h0\<close>, which is still on the free list:
  \<open>validID h0\<close> is false and \<open>get h0\<close> throws.
\<close>

theorem push_get_round_trip_counterexample:
  "run [Push ''A'', Push ''B'', Push ''C'', Remove (ID 0), Remove (ID 0)] (Vector_new True) =
     Inr ([Returned (ID 0), Returned (ID 1), Returned (ID 2), Removed (ID 0), Removed (ID 0)],
          \<lparr>m_KeepOrder = True, m_Data = [''B''], m_IDs = [2, 0, 1],
             m_RevIDs = [ID 1], m_FreeIDSlots = [ID 0, ID 0]\<rparr>) \<and>
   push \<lparr>m_KeepOrder = True, m_Data = [''B''], m_IDs = [2, 0, 1],
          m_RevIDs = [ID 1], m_FreeIDSlots = [ID 0, ID 0]\<rparr> ''D'' =
     Inr (\<lparr>m_KeepOrder = True, m_Data = [''B'', ''D''], m_IDs = [1, 0, 1],
            m_RevIDs = [ID 1, ID 0], m_FreeIDSlots = [ID 0]\<rparr>, ID 0) \<and>
   \<not> validID \<lparr>m_KeepOrder = True, m_Data = [''B'', ''D''], m_IDs = [1, 0, 1],
               m_RevIDs = [ID 1, ID 0], m_FreeIDSlots = [ID 0]\<rparr> (ID 0) \<and>
   get \<lparr>m_KeepOrder = True, m_Data = [''B'', ''D''], m_IDs = [1, 0, 1],
         m_RevIDs = [ID 1, ID 0], m_FreeIDSlots = [ID 0]\<rparr> (ID 0) =
     Inl (InvalidArgument ''ID: 0 is not a valid ID. The object with this id has been deleted.'')"
proof -
  have t: "to_string 0 = ''0''" by code_simp
  show ?thesis
    by (simp add: Let_def push_def addID_def remove_def remove_no_reset_def remove_loop.simps
        size_sub_def idAt_def swapDataLocation_def clear_def Vector_new_def validID_def
        get_def t)
qed

text \<open>
  C2, amended. In every container state that a new container reaches through a sequence
  of calls in which every \<open>remove\<close> is given a handle that is valid at that moment, and
  for every value \<open>x\<close>: \<open>push x\<close> returns a handle that is valid in the new container, and
  \<open>get\<close> of that handle returns \<open>x\<close>.
\<close>

theorem push_get_round_trip:
  assumes "removes_valid cs (Vector_new k)" "run cs (Vector_new k) = Inr (evs, v)"
  shows "\<exists>v' h. push v x = Inr (v', h) \<and> validID v' h \<and> get v' h = Inr x"
  using push_round_trip_wf [OF run_new_order(1) [OF assms]] .

theorem push_get_round_trip_witness:
  "removes_valid [Push ''A'', Push ''B'', Push ''C'', Remove (ID 0)] (Vector_new False) \<and>
   run [Push ''A'', Push ''B'', Push ''C'', Remove (ID 0)] (Vector_new False) =
     Inr ([Returned (ID 0), Returned (ID 1), Returned (ID 2), Removed (ID 0)],
          \<lparr>m_KeepOrder = False, m_Data = [''C'', ''B''], m_IDs = [2, 1, 0],
             m_RevIDs = [ID 2, ID 1], m_FreeIDSlots = [ID 0]\<rparr>) \<and>
   (\<exists>v' h. push \<lparr>m_KeepOrder = False, m_Data = [''C'', ''B''], m_IDs = [2, 1, 0],
                  m_RevIDs = [ID 2, ID 1], m_FreeIDSlots = [ID 0]\<rparr> ''E'' = Inr (v', h) \<and>
           validID v' h \<and> get v' h = Inr ''E'')"
proof -
  have a: "removes_valid [Push ''A'', Push ''B'', Push ''C'', Remove (ID 0)] (Vector_new False)"
    by (simp add: Let_def push_def addID_def remove_def remove_no_reset_def
        size_sub_def swapDataLocation_def clear_def Vector_new_def validID_def)
  have r: "run [Push ''A'', Push ''B'', Push ''C'', Remove (ID 0)] (Vector_new False) =
     Inr ([Returned (ID 0), Returned (ID 1), Returned (ID 2), Removed (ID 0)],
          \<lparr>m_KeepOrder = False, m_Data = [''C'', ''B''], m_IDs = [2, 1, 0],
             m_RevIDs = [ID 2, ID 1], m_FreeIDSlots = [ID 0]\<rparr>)"
    by (simp add: Let_def push_def addID_def remove_def remove_no_reset_def
        size_sub_def swapDataLocation_def clear_def Vector_new_def)
  from push_get_round_trip [OF a r, of "''E''"] a r show ?thesis by blast
qed

text \<open>
  C3, as stated, fails in a container that an unchecked \<open>remove\<close> has damaged. After
  \<open>push A, push B, push C, remove h0, remove h0, push F, push G\<close> in an order-preserving
  container, none of them out of bounds, the dense store is \<open>B, F, G\<close> and the valid
  handle \<open>h1\<close> is stored at position 0. \<open>remove h1\<close> leaves \<open>B\<close> at position 0 and drops
  \<open>G\<close>: nothing is shifted to the front.
\<close>

theorem remove_keeps_order_counterexample:
  "run [Push ''A'', Push ''B'', Push ''C'', Remove (ID 0), Remove (ID 0), Push ''F'', Push ''G'']
       (Vector_new True) =
     Inr ([Returned (ID 0), Returned (ID 1), Returned (ID 2), Removed (ID 0), Removed (ID 0),
           Returned (ID 0), Returned (ID 0)],
          \<lparr>m_KeepOrder = True, m_Data = [''B'', ''F'', ''G''], m_IDs = [2, 0, 1],
             m_RevIDs = [ID 1, ID 0, ID 0], m_FreeIDSlots = []\<rparr>) \<and>
   validID \<lparr>m_KeepOrder = True, m_Data = [''B'', ''F'', ''G''], m_IDs = [2, 0, 1],
             m_RevIDs = [ID 1, ID 0, ID 0], m_FreeIDSlots = []\<rparr> (ID 1) \<and>
   indexOf \<lparr>m_KeepOrder = True, m_Data = [''B'', ''F'', ''G''], m_IDs = [2, 0, 1],
             m_RevIDs = [ID 1, ID 0, ID 0], m_FreeIDSlots = []\<rparr> (ID 1) = Inr 0 \<and>
   remove \<lparr>m_KeepOrder = True, m_Data = [''B'', ''F'', ''G''], m_IDs = [2, 0, 1],
            m_RevIDs = [ID 1, ID 0, ID 0], m_FreeIDSlots = []\<rparr> (ID 1) =
     Inr \<lparr>m_KeepOrder = True, m_Data = [''B'', ''F''], m_IDs = [2, 0, 1],
          m_RevIDs = [ID 1, ID 0], m_FreeIDSlots = [ID 1]\<rparr> \<and>
   dataAt \<lparr>m_KeepOrder = True, m_Data = [''B'', ''F''], m_IDs = [2, 0, 1],
            m_RevIDs = [ID 1, ID 0], m_FreeIDSlots = [ID 1]\<rparr> 0 = Inr ''B''"
  by (simp add: Let_def push_def addID_def remove_def remove_no_reset_def remove_loop.simps
      size_sub_def idAt_def swapDataLocation_def clear_def Vector_new_def validID_def
      indexOf_def dataAt_def)

text \<open>
  C3, amended. Take an order-preserving container in a state that a new container reaches
  through a sequence of calls in which every \<open>remove\<close> is given a handle that is valid at
  that moment. \<open>remove\<close> of a valid handle \<open>h\<close> stored at position \<open>i\<close> deletes position
  \<open>i\<close> from the dense store and from the reverse table: the elements before \<open>i\<close> stay,
  every element after \<open>i\<close> moves one position to the front, and the size drops by one.
  Afterwards \<open>h\<close> is not valid, and every other valid handle is still valid and \<open>get\<close>
  returns the same element for it.
\<close>

theorem remove_keeps_order:
  assumes "removes_valid cs (Vector_new True)" "run cs (Vector_new True) = Inr (evs, v)"
    and "validID v h" "indexOf v h = Inr i"
  shows "\<exists>v'. remove v h = Inr v' \<and>
           m_Data v' = take i (m_Data v) @ drop (Suc i) (m_Data v) \<and>
           m_RevIDs v' = take i (m_RevIDs v) @ drop (Suc i) (m_RevIDs v) \<and>
           size_of v' = size_of v - 1 \<and>
           (\<forall>p. p < i \<longrightarrow> dataAt v' p = dataAt v p) \<and>
           (\<forall>p. i \<le> p \<and> p < size_of v' \<longrightarrow> dataAt v' p = dataAt v (Suc p)) \<and>
           \<not> validID v' h \<and>
           (\<forall>g. validID v g \<and> g \<noteq> h \<longrightarrow> validID v' g \<and> get v' g = get v g)"
proof -
  note w = run_new_order [OF assms(1,2)]
  from w(2) have "m_KeepOrder v" by simp
  from remove_keeps_order_wf [OF w(1) assms(3) this assms(4)] show ?thesis .
qed

theorem remove_keeps_order_witness:
  "removes_valid [Push ''A'', Push ''B'', Push ''C'', Push ''D''] (Vector_new True) \<and>
   run [Push ''A'', Push ''B'', Push ''C'', Push ''D''] (Vector_new True) =
     Inr ([Returned (ID 0), Returned (ID 1), Returned (ID 2), Returned (ID 3)],
          \<lparr>m_KeepOrder = True, m_Data = [''A'', ''B'', ''C'', ''D''], m_IDs = [0, 1, 2, 3],
             m_RevIDs = [ID 0, ID 1, ID 2, ID 3], m_FreeIDSlots = []\<rparr>) \<and>
   (\<exists>v'. remove \<lparr>m_KeepOrder = True, m_Data = [''A'', ''B'', ''C'', ''D''], m_IDs = [0, 1, 2, 3],
                   m_RevIDs = [ID 0, ID 1, ID 2, ID 3], m_FreeIDSlots = []\<rparr> (ID 1) = Inr v' \<and>
         dataAt v' 0 = Inr ''A'' \<and> dataAt v' 1 = Inr ''C'' \<and> dataAt v' 2 = Inr ''D'' \<and>
         get v' (ID 0) = Inr ''A'' \<and> get v' (ID 2) = Inr ''C'' \<and> get v' (ID 3) = Inr ''D'' \<and>
         validID v' (ID 1) = False \<and> size_of v' = 3)"
proof -
  let ?v = "\<lparr>m_KeepOrder = True, m_Data = [''A'', ''B'', ''C'', ''D''], m_IDs = [0, 1, 2, 3],
             m_RevIDs = [ID 0, ID 1, ID 2, ID 3], m_FreeIDSlots = []\<rparr>"
  have c: "removes_valid [Push ''A'', Push ''B'', Push ''C'', Push ''D''] (Vector_new True)"
    by (simp add: Let_def push_def addID_def size_sub_def Vector_new_def)
  have r: "run [Push ''A'', Push ''B'', Push ''C'', Push ''D''] (Vector_new True) =
     Inr ([Returned (ID 0), Returned (ID 1), Returned (ID 2), Returned (ID 3)], ?v)"
    by (simp add: Let_def push_def addID_def size_sub_def Vector_new_def)
  have a: "validID ?v (ID 1)" "indexOf ?v (ID 1) = Inr 1"
    by (simp_all add: validID_def indexOf_def)
  have g: "validID ?v (ID 0)" "validID ?v (ID 2)" "validID ?v (ID 3)"
    "get ?v (ID 0) = Inr ''A''" "get ?v (ID 2) = Inr ''C''" "get ?v (ID 3) = Inr ''D''"
    by (simp_all add: validID_def get_def)
  from remove_keeps_order [OF c r a] obtain v' where
    v': "remove ?v (ID 1) = Inr v'" "size_of v' = size_of ?v - 1"
      "\<forall>p. p < 1 \<longrightarrow> dataAt v' p = dataAt ?v p"
      "\<forall>p. 1 \<le> p \<and> p < size_of v' \<longrightarrow> dataAt v' p = dataAt ?v (Suc p)"
      "\<not> validID v' (ID 1)"
      "\<forall>g. validID ?v g \<and> g \<noteq> ID 1 \<longrightarrow> validID v' g \<and> get v' g = get ?v g"
    by blast
  have s: "size_of v' = 3" using v'(2) by (simp add: size_of_def)
  have "dataAt v' 0 = Inr ''A''" using v'(3) by (simp add: dataAt_def)
  moreover have "dataAt v' 1 = Inr ''C''" "dataAt v' 2 = Inr ''D''"
    using v'(4) s by (simp_all add: dataAt_def)
  moreover have "get v' (ID 0) = Inr ''A''" "get v' (ID 2) = Inr ''C''" "get v' (ID 3) = Inr ''D''"
    using v'(6) g by simp_all
  ultimately show ?thesis using c r v'(1,5) s by simp
qed

text \<open>
  C4. In a well-formed swap-remove container, \<open>remove\<close> of a valid handle \<open>h\<close> stored at
  position \<open>i\<close> puts the last element of the dense store at position \<open>i\<close> and drops the
  last position, in the dense store and in the reverse table alike. Unless \<open>h\<close> was the
  only element, the slot table gets the last position for \<open>h\<close> and \<open>i\<close> for the handle of
  the last element, and \<open>h\<close> is pushed on the free list. The size drops by one, \<open>h\<close> is
  not valid afterwards, and every other valid handle is still valid and \<open>get\<close> returns
  the same element for it.
\<close>

theorem remove_swaps_with_last:
  assumes "wf_Vector v" "validID v h" "\<not> m_KeepOrder v" "indexOf v h = Inr i"
  shows "\<exists>v'. remove v h = Inr v' \<and>
           m_Data v' = butlast ((m_Data v)[i := last (m_Data v)]) \<and>
           m_RevIDs v' = butlast ((m_RevIDs v)[i := last (m_RevIDs v)]) \<and>
           (1 < size_of v \<longrightarrow>
              m_IDs v' = (m_IDs v)[ID_value h := size_of v - 1,
                                   ID_value (last (m_RevIDs v)) := i] \<and>
              m_FreeIDSlots v' = m_FreeIDSlots v @ [h]) \<and>
           size_of v' = size_of v - 1 \<and>
           \<not> validID v' h \<and>
           (\<forall>g. validID v g \<and> g \<noteq> h \<longrightarrow> validID v' g \<and> get v' g = get v g)"
proof -
  note i = indexOf_valid [OF assms(1,2,4)]
  from remove_valid_swap [OF assms(1,2,3)] i(1) obtain v' where
    v': "remove v h = Inr v'" "m_Data v' = swap_remove_at i (m_Data v)"
      "m_RevIDs v' = swap_remove_at i (m_RevIDs v)"
      "m_FreeIDSlots v' = (if length (m_Data v) = 1 then [] else m_FreeIDSlots v @ [h])"
      "m_IDs v' = (if length (m_Data v) = 1 then []
                   else (m_IDs v)[ID_value h := length (m_Data v) - 1,
                                  ID_value (last (m_RevIDs v)) := i])"
    by auto
  note o = remove_others [OF assms(1,2) v'(1)]
  from v' o(2,3,4) show ?thesis
    by (simp add: swap_remove_at_def size_of_def)
qed

theorem remove_swaps_with_last_witness:
  "run [Push ''A'', Push ''B'', Push ''C''] (Vector_new False) =
     Inr ([Returned (ID 0), Returned (ID 1), Returned (ID 2)],
          \<lparr>m_KeepOrder = False, m_Data = [''A'', ''B'', ''C''], m_IDs = [0, 1, 2],
             m_RevIDs = [ID 0, ID 1, ID 2], m_FreeIDSlots = []\<rparr>) \<and>
   (\<exists>v'. remove \<lparr>m_KeepOrder = False, m_Data = [''A'', ''B'', ''C''], m_IDs = [0, 1, 2],
                   m_RevIDs = [ID 0, ID 1, ID 2], m_FreeIDSlots = []\<rparr> (ID 0) = Inr v' \<and>
         validID v' (ID 0) = False \<and> validID v' (ID 1) = True \<and> validID v' (ID 2) = True \<and>
         get v' (ID 1) = Inr ''B'' \<and> get v' (ID 2) = Inr ''C'' \<and> size_of v' = 2 \<and>
         m_Data v' = [''C'', ''B''] \<and> m_IDs v' = [2, 1, 0] \<and>
         m_RevIDs v' = [ID 2, ID 1] \<and> m_FreeIDSlots v' = [ID 0])"
proof -
  let ?v = "\<lparr>m_KeepOrder = False, m_Data = [''A'', ''B'', ''C''], m_IDs = [0, 1, 2],
             m_RevIDs = [ID 0, ID 1, ID 2], m_FreeIDSlots = []\<rparr>"
  have r: "run [Push ''A'', Push ''B'', Push ''C''] (Vector_new False) =
     Inr ([Returned (ID 0), Returned (ID 1), Returned (ID 2)], ?v)"
    by (simp add: Let_def push_def addID_def size_sub_def Vector_new_def)
  have w: "wf_Vector ?v" by (simp add: wf_Vector_def slots_def upt_conv_Cons)
  have a: "validID ?v (ID 0)" "\<not> m_KeepOrder ?v" "indexOf ?v (ID 0) = Inr 0"
    by (simp_all add: validID_def indexOf_def)
  have g: "validID ?v (ID 1)" "validID ?v (ID 2)"
    "get ?v (ID 1) = Inr ''B''" "get ?v (ID 2) = Inr ''C''"
    by (simp_all add: validID_def get_def)
  from remove_swaps_with_last [OF w a] obtain v' where
    v': "remove ?v (ID 0) = Inr v'"
      "m_Data v' = butlast ((m_Data ?v)[0 := last (m_Data ?v)])"
      "m_RevIDs v' = butlast ((m_RevIDs ?v)[0 := last (m_RevIDs ?v)])"
      "1 < size_of ?v \<longrightarrow>
         m_IDs v' = (m_IDs ?v)[ID_value (ID 0) := size_of ?v - 1,
                               ID_value (last (m_RevIDs ?v)) := 0] \<and>
         m_FreeIDSlots v' = m_FreeIDSlots ?v @ [ID 0]"
      "size_of v' = size_of ?v - 1"
      "\<not> validID v' (ID 0)"
      "\<forall>g. validID ?v g \<and> g \<noteq> ID 0 \<longrightarrow> validID v' g \<and> get v' g = get ?v g"
    by blast
  have "validID v' (ID 1)" "validID v' (ID 2)" "get v' (ID 1) = Inr ''B''" "get v' (ID 2) = Inr ''C''"
    using v'(7) g by simp_all
  moreover have "size_of v' = 2" using v'(5) by (simp add: size_of_def)
  moreover have "m_Data v' = [''C'', ''B'']" "m_RevIDs v' = [ID 2, ID 1]"
    using v'(2,3) by simp_all
  moreover have "m_IDs v' = [2, 1, 0]" "m_FreeIDSlots v' = [ID 0]"
    using v'(4) by (simp_all add: size_of_def)
  ultimately show ?thesis using r v'(1,6) by simp
qed

text \<open>
  C5, as stated, fails for the same reason. After \<open>push A, push B, push C, remove h0,
  remove h0\<close> in an order-preserving container the handles \<open>h1\<close> and \<open>h2\<close> are valid, the
  dense store and the reverse table hold one element, and the storage position of \<open>h2\<close>
  is outside the reverse table.
\<close>

theorem tables_consistent_counterexample:
  "run [Push ''A'', Push ''B'', Push ''C'', Remove (ID 0), Remove (ID 0)] (Vector_new True) =
     Inr ([Returned (ID 0), Returned (ID 1), Returned (ID 2), Removed (ID 0), Removed (ID 0)],
          \<lparr>m_KeepOrder = True, m_Data = [''B''], m_IDs = [2, 0, 1],
             m_RevIDs = [ID 1], m_FreeIDSlots = [ID 0, ID 0]\<rparr>) \<and>
   validID \<lparr>m_KeepOrder = True, m_Data = [''B''], m_IDs = [2, 0, 1],
             m_RevIDs = [ID 1], m_FreeIDSlots = [ID 0, ID 0]\<rparr> (ID 1) \<and>
   validID \<lparr>m_KeepOrder = True, m_Data = [''B''], m_IDs = [2, 0, 1],
             m_RevIDs = [ID 1], m_FreeIDSlots = [ID 0, ID 0]\<rparr> (ID 2) \<and>
   size_of \<lparr>m_KeepOrder = True, m_Data = [''B''], m_IDs = [2, 0, 1],
             m_RevIDs = [ID 1], m_FreeIDSlots = [ID 0, ID 0]\<rparr> = 1 \<and>
   indexOf \<lparr>m_KeepOrder = True, m_Data = [''B''], m_IDs = [2, 0, 1],
             m_RevIDs = [ID 1], m_FreeIDSlots = [ID 0, ID 0]\<rparr> (ID 2) = Inr 1 \<and>
   idAt \<lparr>m_KeepOrder = True, m_Data = [''B''], m_IDs = [2, 0, 1],
          m_RevIDs = [ID 1], m_FreeIDSlots = [ID 0, ID 0]\<rparr> 1 = Inl OutOfBounds"
  by (simp add: Let_def push_def addID_def remove_def remove_no_reset_def remove_loop.simps
      size_sub_def idAt_def swapDataLocation_def clear_def Vector_new_def indexOf_def
      validID_def size_of_def)

text \<open>
  C5, amended. After every sequence of calls on a new container in which every \<open>remove\<close>
  is given a handle that is valid at that moment: the dense store and the reverse table
  have the same length, which is the number of valid handles; the reverse table at the
  storage position of a valid handle holds that handle; and two valid handles with the
  same storage position are equal.
\<close>

theorem tables_consistent:
  assumes "removes_valid cs (Vector_new k)"
  shows "\<exists>evs v. run cs (Vector_new k) = Inr (evs, v) \<and>
           size_of v = length (m_RevIDs v) \<and>
           length (m_RevIDs v) = card {h. validID v h} \<and>
           (\<forall>h. validID v h \<longrightarrow> (\<exists>p. indexOf v h = Inr p \<and> idAt v p = Inr h)) \<and>
           (\<forall>h g. validID v h \<and> validID v g \<and> indexOf v h = indexOf v g \<longrightarrow> h = g)"
proof -
  from run_new [OF assms] obtain evs v where
    r: "run cs (Vector_new k) = Inr (evs, v)" "wf_Vector v" by blast
  note c = wf_consistent [OF r(2)]
  have "size_of v = length (m_RevIDs v)" using c(1) by (simp add: size_of_def)
  moreover have "length (m_RevIDs v) = card {h. validID v h}" using c(2) by simp
  moreover have "\<forall>h. validID v h \<longrightarrow> (\<exists>p. indexOf v h = Inr p \<and> idAt v p = Inr h)"
    using c(3) by blast
  moreover have "\<forall>h g. validID v h \<and> validID v g \<and> indexOf v h = indexOf v g \<longrightarrow> h = g"
    using c(4) by blast
  ultimately show ?thesis using r(1) by blast
qed

theorem tables_consistent_witness:
  "removes_valid [Push ''A'', Push ''B'', Push ''C'', Remove (ID 0),
      Reserve \<lparr>data_max_size = 2 ^ 58, ids_max_size = 2 ^ 60, rev_max_size = 2 ^ 60\<rparr> 4, Push ''D'']
     (Vector_new True) \<and>
   (\<exists>evs v. run [Push ''A'', Push ''B'', Push ''C'', Remove (ID 0),
      Reserve \<lparr>data_max_size = 2 ^ 58, ids_max_size = 2 ^ 60, rev_max_size = 2 ^ 60\<rparr> 4, Push ''D'']
               (Vector_new True) = Inr (evs, v) \<and>
            size_of v = length (m_RevIDs v) \<and>
            length (m_RevIDs v) = card {h. validID v h} \<and>
            (\<forall>h. validID v h \<longrightarrow> (\<exists>p. indexOf v h = Inr p \<and> idAt v p = Inr h)) \<and>
            (\<forall>h g. validID v h \<and> validID v g \<and> indexOf v h = indexOf v g \<longrightarrow> h = g))"
proof -
  have "removes_valid [Push ''A'', Push ''B'', Push ''C'', Remove (ID 0),
      Reserve \<lparr>data_max_size = 2 ^ 58, ids_max_size = 2 ^ 60, rev_max_size = 2 ^ 60\<rparr> 4, Push ''D'']
     (Vector_new True)"
    by (simp add: Let_def push_def addID_def remove_def remove_no_reset_def remove_loop.simps
        size_sub_def idAt_def swapDataLocation_def clear_def Vector_new_def validID_def
        reserve_def)
  with tables_consistent [of _ True] show ?thesis by blast
qed

text \<open>
  C6, as stated, fails in its last part in a container that an unchecked \<open>remove\<close> has
  damaged. After \<open>push A, push B, push C, remove h0, remove h0\<close> in an order-preserving
  container, none of them out of bounds, \<open>h2\<close> is inside the slot table and not on the
  free list, and \<open>get h2\<close> reads the dense store out of bounds: it neither throws one of
  the two errors nor succeeds.
\<close>

theorem get_fails_in_two_cases_counterexample:
  "run [Push ''A'', Push ''B'', Push ''C'', Remove (ID 0), Remove (ID 0)] (Vector_new True) =
     Inr ([Returned (ID 0), Returned (ID 1), Returned (ID 2), Removed (ID 0), Removed (ID 0)],
          \<lparr>m_KeepOrder = True, m_Data = [''B''], m_IDs = [2, 0, 1],
             m_RevIDs = [ID 1], m_FreeIDSlots = [ID 0, ID 0]\<rparr>) \<and>
   ID_value (ID 2) < length (m_IDs \<lparr>m_KeepOrder = True, m_Data = [''B''], m_IDs = [2, 0, 1],
                                     m_RevIDs = [ID 1], m_FreeIDSlots = [ID 0, ID 0]\<rparr>) \<and>
   ID 2 \<notin> set (m_FreeIDSlots \<lparr>m_KeepOrder = True, m_Data = [''B''], m_IDs = [2, 0, 1],
                                m_RevIDs = [ID 1], m_FreeIDSlots = [ID 0, ID 0]\<rparr>) \<and>
   get \<lparr>m_KeepOrder = True, m_Data = [''B''], m_IDs = [2, 0, 1],
         m_RevIDs = [ID 1], m_FreeIDSlots = [ID 0, ID 0]\<rparr> (ID 2) = Inl OutOfBounds"
  by (simp add: Let_def push_def addID_def remove_def remove_no_reset_def remove_loop.simps
      size_sub_def idAt_def swapDataLocation_def clear_def Vector_new_def validID_def get_def)

text \<open>
  C6, amended. \<open>get\<close> throws in two cases, and the container is the same afterwards:
  with a handle outside the slot table the message ends \<open>ID out of bounds.\<close>, with a
  handle inside the slot table and on the free list it ends
  \<open>The object with this id has been deleted.\<close> The two messages differ whatever the
  handles are. In every other case \<open>get\<close> throws neither; and it returns an element, with
  the container the same afterwards, when the container is in a state that a new
  container reaches through a sequence of calls in which every \<open>remove\<close> is given a
  handle that is valid at that moment.
\<close>

theorem get_fails_in_two_cases:
  "(\<not> ID_value h < length (m_IDs v) \<longrightarrow>
      get v h = Inl (InvalidArgument
        (''ID: '' @ to_string (ID_value h) @ '' is not a valid ID. '' @ ''ID out of bounds.'')) \<and>
      exec (Get h) v = Inr (Threw
        (''ID: '' @ to_string (ID_value h) @ '' is not a valid ID. '' @ ''ID out of bounds.''), v)) \<and>
   (ID_value h < length (m_IDs v) \<and> h \<in> set (m_FreeIDSlots v) \<longrightarrow>
      get v h = Inl (InvalidArgument
        (''ID: '' @ to_string (ID_value h) @ '' is not a valid ID. '' @
         ''The object with this id has been deleted.'')) \<and>
      exec (Get h) v = Inr (Threw
        (''ID: '' @ to_string (ID_value h) @ '' is not a valid ID. '' @
         ''The object with this id has been deleted.''), v)) \<and>
   (ID_value h < length (m_IDs v) \<and> h \<notin> set (m_FreeIDSlots v) \<longrightarrow>
      (\<forall>msg. get v h \<noteq> Inl (InvalidArgument msg))) \<and>
   (removes_valid cs (Vector_new k) \<and> run cs (Vector_new k) = Inr (evs, v) \<and>
    ID_value h < length (m_IDs v) \<and> h \<notin> set (m_FreeIDSlots v) \<longrightarrow>
      (\<exists>x. get v h = Inr x \<and> exec (Get h) v = Inr (Got x, v))) \<and>
   (\<forall>a b. a @ ''ID out of bounds.'' \<noteq> b @ ''The object with this id has been deleted.'')"
proof -
  have a: "get v h = Inl (InvalidArgument
        (''ID: '' @ to_string (ID_value h) @ '' is not a valid ID. '' @ ''ID out of bounds.''))"
    if "\<not> ID_value h < length (m_IDs v)"
    using that by (simp add: get_def validID_def)
  have b: "get v h = Inl (InvalidArgument
        (''ID: '' @ to_string (ID_value h) @ '' is not a valid ID. '' @
         ''The object with this id has been deleted.''))"
    if "ID_value h < length (m_IDs v)" "h \<in> set (m_FreeIDSlots v)"
    using that by (simp add: get_def validID_def)
  have c: "\<forall>msg. get v h \<noteq> Inl (InvalidArgument msg)"
    if "ID_value h < length (m_IDs v)" "h \<notin> set (m_FreeIDSlots v)"
    using that by (simp add: get_def validID_def)
  have d: "\<exists>x. get v h = Inr x \<and> exec (Get h) v = Inr (Got x, v)"
    if "removes_valid cs (Vector_new k)" "run cs (Vector_new k) = Inr (evs, v)"
      "ID_value h < length (m_IDs v)" "h \<notin> set (m_FreeIDSlots v)"
    using get_cases_wf [OF run_new_order(1) [OF that(1,2)], of h] that(3,4) by blast
  from a b c d reasons_differ show ?thesis
    by (simp del: append.simps)
qed

theorem get_fails_in_two_cases_witness:
  "removes_valid [Push ''A'', Push ''B'', Push ''C'', Remove (ID 0)] (Vector_new True) \<and>
   run [Push ''A'', Push ''B'', Push ''C'', Remove (ID 0)] (Vector_new True) =
     Inr ([Returned (ID 0), Returned (ID 1), Returned (ID 2), Removed (ID 0)],
          \<lparr>m_KeepOrder = True, m_Data = [''B'', ''C''], m_IDs = [2, 0, 1],
             m_RevIDs = [ID 1, ID 2], m_FreeIDSlots = [ID 0]\<rparr>) \<and>
   get \<lparr>m_KeepOrder = True, m_Data = [''B'', ''C''], m_IDs = [2, 0, 1],
         m_RevIDs = [ID 1, ID 2], m_FreeIDSlots = [ID 0]\<rparr> (ID 7) =
     Inl (InvalidArgument ''ID: 7 is not a valid ID. ID out of bounds.'') \<and>
   get \<lparr>m_KeepOrder = True, m_Data = [''B'', ''C''], m_IDs = [2, 0, 1],
         m_RevIDs = [ID 1, ID 2], m_FreeIDSlots = [ID 0]\<rparr> (ID 0) =
     Inl (InvalidArgument ''ID: 0 is not a valid ID. The object with this id has been deleted.'') \<and>
   (\<exists>x. get \<lparr>m_KeepOrder = True, m_Data = [''B'', ''C''], m_IDs = [2, 0, 1],
              m_RevIDs = [ID 1, ID 2], m_FreeIDSlots = [ID 0]\<rparr> (ID 2) = Inr x \<and>
        exec (Get (ID 2)) \<lparr>m_KeepOrder = True, m_Data = [''B'', ''C''], m_IDs = [2, 0, 1],
              m_RevIDs = [ID 1, ID 2], m_FreeIDSlots = [ID 0]\<rparr> =
          Inr (Got x, \<lparr>m_KeepOrder = True, m_Data = [''B'', ''C''], m_IDs = [2, 0, 1],
              m_RevIDs = [ID 1, ID 2], m_FreeIDSlots = [ID 0]\<rparr>))"
proof -
  let ?v = "\<lparr>m_KeepOrder = True, m_Data = [''B'', ''C''], m_IDs = [2, 0, 1],
               m_RevIDs = [ID 1, ID 2], m_FreeIDSlots = [ID 0]\<rparr>"
  let ?cs = "[Push ''A'', Push ''B'', Push ''C'', Remove (ID 0)]"
  have c: "removes_valid ?cs (Vector_new True)"
    by (simp add: Let_def push_def addID_def remove_def remove_no_reset_def remove_loop.simps
        size_sub_def idAt_def swapDataLocation_def clear_def Vector_new_def validID_def)
  have r: "run ?cs (Vector_new True) =
     Inr ([Returned (ID 0), Returned (ID 1), Returned (ID 2), Removed (ID 0)], ?v)"
    by (simp add: Let_def push_def addID_def remove_def remove_no_reset_def remove_loop.simps
        size_sub_def idAt_def swapDataLocation_def clear_def Vector_new_def)
  have t: "to_string 7 = ''7''" "to_string 0 = ''0''" by code_simp+
  from get_fails_in_two_cases [of "ID 7" ?v] get_fails_in_two_cases [of "ID 0" ?v]
    get_fails_in_two_cases [of "ID 2" ?v ?cs True
      "[Returned (ID 0), Returned (ID 1), Returned (ID 2), Removed (ID 0)]"] c r
  show ?thesis by (simp add: t)
qed

text \<open>
  C7, as stated, fails in its last part: the reset can be seen in the calls that follow.
  Take the container after \<open>push A, push B, remove h0\<close> and remove \<open>h1\<close>, its last
  element. After \<open>remove\<close> the calls \<open>push C, get h0\<close> return \<open>h0\<close> and then \<open>C\<close>; after
  the same \<open>remove\<close> without its reset they return \<open>h1\<close> and then the exception for a
  deleted element.
\<close>

theorem remove_last_resets_counterexample:
  "remove \<lparr>m_KeepOrder = True, m_Data = [''B''], m_IDs = [1, 0], m_RevIDs = [ID 1],
            m_FreeIDSlots = [ID 0]\<rparr> (ID 1) =
     Inr \<lparr>m_KeepOrder = True, m_Data = [], m_IDs = [], m_RevIDs = [], m_FreeIDSlots = []\<rparr> \<and>
   remove_no_reset \<lparr>m_KeepOrder = True, m_Data = [''B''], m_IDs = [1, 0], m_RevIDs = [ID 1],
                     m_FreeIDSlots = [ID 0]\<rparr> (ID 1) =
     Inr \<lparr>m_KeepOrder = True, m_Data = [], m_IDs = [1, 0], m_RevIDs = [],
          m_FreeIDSlots = [ID 0, ID 1]\<rparr> \<and>
   run [Push ''C'', Get (ID 0)]
       \<lparr>m_KeepOrder = True, m_Data = [], m_IDs = [], m_RevIDs = [], m_FreeIDSlots = []\<rparr> =
     Inr ([Returned (ID 0), Got ''C''],
          \<lparr>m_KeepOrder = True, m_Data = [''C''], m_IDs = [0], m_RevIDs = [ID 0],
             m_FreeIDSlots = []\<rparr>) \<and>
   run [Push ''C'', Get (ID 0)]
       \<lparr>m_KeepOrder = True, m_Data = [], m_IDs = [1, 0], m_RevIDs = [],
          m_FreeIDSlots = [ID 0, ID 1]\<rparr> =
     Inr ([Returned (ID 1),
           Threw ''ID: 0 is not a valid ID. The object with this id has been deleted.''],
          \<lparr>m_KeepOrder = True, m_Data = [''C''], m_IDs = [1, 0], m_RevIDs = [ID 1],
             m_FreeIDSlots = [ID 0]\<rparr>)"
proof -
  have t: "to_string 0 = ''0''" by code_simp
  show ?thesis
    by (simp add: Let_def push_def addID_def remove_def remove_no_reset_def remove_loop.simps
        size_sub_def idAt_def swapDataLocation_def clear_def get_def validID_def t)
qed

text \<open>
  C7, amended. Whenever \<open>remove\<close> returns from a container with one element, the result
  is the empty container: dense store, slot table, reverse table and free list are
  empty, the size is 0 and no handle is valid; and \<open>remove\<close> of a valid handle does
  return in every state that a new container reaches through calls whose \<open>remove\<close>s are
  given valid handles. The reset is not invisible to the calls that follow: after it the
  next \<open>push\<close> returns the handle with index 0, after the same \<open>remove\<close> without the
  reset the next \<open>push\<close> returns the removed handle, and the two handles differ whenever
  the removed handle does not have index 0.
\<close>

theorem remove_last_resets:
  "(size_of v = 1 \<and> remove v h = Inr v' \<longrightarrow>
      v' = \<lparr>m_KeepOrder = m_KeepOrder v, m_Data = [], m_IDs = [],
            m_RevIDs = [], m_FreeIDSlots = []\<rparr> \<and>
      size_of v' = 0 \<and> (\<forall>g. \<not> validID v' g) \<and> (\<exists>w. push v' x = Inr (w, ID 0))) \<and>
   (remove_no_reset v h = Inr u \<longrightarrow> (\<exists>w. push u x = Inr (w, h))) \<and>
   (size_of v = 1 \<and> remove v h = Inr v' \<and> remove_no_reset v h = Inr u \<and>
    push v' x = Inr (w1, a) \<and> push u x = Inr (w2, b) \<and> ID_value h \<noteq> 0 \<longrightarrow> a \<noteq> b) \<and>
   (removes_valid cs (Vector_new k) \<and> run cs (Vector_new k) = Inr (evs, v) \<and> validID v h \<longrightarrow>
      (\<exists>v'. remove v h = Inr v'))"
proof -
  let ?e = "\<lparr>m_KeepOrder = m_KeepOrder v, m_Data = [], m_IDs = [],
            m_RevIDs = [], m_FreeIDSlots = []\<rparr> :: 'a Vector"
  have e: "v' = ?e" if "size_of v = 1" "remove v h = Inr v'" for v'
  proof -
    from remove_cases [OF that(2)] obtain u where
      u: "remove_no_reset v h = Inr u" "v' = (if m_Data u = [] then clear u else u)" by blast
    note s = remove_no_reset_shape [OF u(1)]
    from s(4) that(1) have "m_Data u = []" by (simp add: size_of_def)
    with u(2) s(6) show ?thesis by (simp add: clear_def)
  qed
  have p0: "size_of ?e = 0 \<and> (\<forall>g. \<not> validID ?e g) \<and> (\<exists>w. push ?e x = Inr (w, ID 0))"
    by (simp add: size_of_def validID_def push_def addID_def)
  have A: "v' = ?e \<and> size_of v' = 0 \<and> (\<forall>g. \<not> validID v' g) \<and> (\<exists>w. push v' x = Inr (w, ID 0))"
    if "size_of v = 1" "remove v h = Inr v'"
    using e [OF that] p0 by simp
  have B: "\<exists>w. push u x = Inr (w, h)" if "remove_no_reset v h = Inr u" for u
  proof -
    note s = remove_no_reset_shape [OF that]
    have ne: "m_FreeIDSlots u \<noteq> []" and la: "last (m_FreeIDSlots u) = h"
      using s(3) by simp_all
    have "ID_value (last (m_FreeIDSlots u)) < length (m_IDs u)" using la s(1,2) by simp
    from push_recycle [OF ne this, of x] la show ?thesis by simp
  qed
  have C: "a \<noteq> b"
    if "size_of v = 1" "remove v h = Inr v'" "remove_no_reset v h = Inr u"
      "push v' x = Inr (w1, a)" "push u x = Inr (w2, b)" "ID_value h \<noteq> 0"
  proof -
    from A [OF that(1,2)] that(4) have "a = ID 0" by auto
    moreover from B [OF that(3)] that(5) have "b = h" by auto
    ultimately show ?thesis using that(6) by auto
  qed
  have D: "\<exists>v'. remove v h = Inr v'"
    if "removes_valid cs (Vector_new k)" "run cs (Vector_new k) = Inr (evs, v)" "validID v h"
    using remove_valid [OF run_new_order(1) [OF that(1,2)] that(3)] by blast
  from A B C D show ?thesis by blast
qed

theorem remove_last_resets_witness:
  "removes_valid [Push ''A'', Push ''B'', Remove (ID 0)] (Vector_new True) \<and>
   run [Push ''A'', Push ''B'', Remove (ID 0)] (Vector_new True) =
     Inr ([Returned (ID 0), Returned (ID 1), Removed (ID 0)],
          \<lparr>m_KeepOrder = True, m_Data = [''B''], m_IDs = [1, 0], m_RevIDs = [ID 1],
             m_FreeIDSlots = [ID 0]\<rparr>) \<and>
   remove \<lparr>m_KeepOrder = True, m_Data = [''B''], m_IDs = [1, 0], m_RevIDs = [ID 1],
            m_FreeIDSlots = [ID 0]\<rparr> (ID 1) =
     Inr \<lparr>m_KeepOrder = True, m_Data = [], m_IDs = [], m_RevIDs = [], m_FreeIDSlots = []\<rparr> \<and>
   remove_no_reset \<lparr>m_KeepOrder = True, m_Data = [''B''], m_IDs = [1, 0], m_RevIDs = [ID 1],
                     m_FreeIDSlots = [ID 0]\<rparr> (ID 1) =
     Inr \<lparr>m_KeepOrder = True, m_Data = [], m_IDs = [1, 0], m_RevIDs = [],
          m_FreeIDSlots = [ID 0, ID 1]\<rparr> \<and>
   push \<lparr>m_KeepOrder = True, m_Data = [], m_IDs = [], m_RevIDs = [], m_FreeIDSlots = []\<rparr> ''C'' =
     Inr (\<lparr>m_KeepOrder = True, m_Data = [''C''], m_IDs = [0], m_RevIDs = [ID 0],
            m_FreeIDSlots = []\<rparr>, ID 0) \<and>
   push \<lparr>m_KeepOrder = True, m_Data = [], m_IDs = [1, 0], m_RevIDs = [],
          m_FreeIDSlots = [ID 0, ID 1]\<rparr> ''C'' =
     Inr (\<lparr>m_KeepOrder = True, m_Data = [''C''], m_IDs = [1, 0], m_RevIDs = [ID 1],
            m_FreeIDSlots = [ID 0]\<rparr>, ID 1) \<and>
   ID 0 \<noteq> ID 1"
proof -
  let ?v = "\<lparr>m_KeepOrder = True, m_Data = [''B''], m_IDs = [1, 0], m_RevIDs = [ID 1],
             m_FreeIDSlots = [ID 0]\<rparr>"
  let ?e = "\<lparr>m_KeepOrder = True, m_Data = [], m_IDs = [], m_RevIDs = [],
             m_FreeIDSlots = []\<rparr> :: string Vector"
  let ?u = "\<lparr>m_KeepOrder = True, m_Data = [], m_IDs = [1, 0], m_RevIDs = [],
             m_FreeIDSlots = [ID 0, ID 1]\<rparr> :: string Vector"
  let ?w1 = "\<lparr>m_KeepOrder = True, m_Data = [''C''], m_IDs = [0], m_RevIDs = [ID 0],
            m_FreeIDSlots = []\<rparr>"
  let ?w2 = "\<lparr>m_KeepOrder = True, m_Data = [''C''], m_IDs = [1, 0], m_RevIDs = [ID 1],
            m_FreeIDSlots = [ID 0]\<rparr>"
  let ?cs = "[Push ''A'', Push ''B'', Remove (ID 0)]"
  have c: "removes_valid ?cs (Vector_new True)"
    by (simp add: Let_def push_def addID_def remove_def remove_no_reset_def remove_loop.simps
        size_sub_def idAt_def swapDataLocation_def clear_def Vector_new_def validID_def)
  have r: "run ?cs (Vector_new True) =
     Inr ([Returned (ID 0), Returned (ID 1), Removed (ID 0)], ?v)"
    by (simp add: Let_def push_def addID_def remove_def remove_no_reset_def remove_loop.simps
        size_sub_def idAt_def swapDataLocation_def clear_def Vector_new_def)
  have s: "size_of ?v = 1" "validID ?v (ID 1)" "ID_value (ID 1) \<noteq> 0"
    by (simp_all add: size_of_def validID_def)
  have n: "remove_no_reset ?v (ID 1) = Inr ?u"
    by (simp add: Let_def remove_no_reset_def remove_loop.simps size_sub_def)
  have rm: "remove ?v (ID 1) = Inr ?e"
    by (simp add: Let_def remove_def remove_no_reset_def remove_loop.simps size_sub_def
        clear_def)
  have p: "push ?e ''C'' = Inr (?w1, ID 0)" "push ?u ''C'' = Inr (?w2, ID 1)"
    by (simp_all add: Let_def push_def addID_def)
  from remove_last_resets [of ?v "ID 1" ?e "''C''" ?u ?w1 "ID 0" ?w2 "ID 1" ?cs True
      "[Returned (ID 0), Returned (ID 1), Removed (ID 0)]"] c r s n rm p
  show ?thesis by simp
qed

text \<open>
  C8. \<open>push\<close> and \<open>emplace\<close> return the last entry of the free list, and take it off
  the list, when the list is not empty (an entry outside the slot table is an
  out-of-bounds write); with an empty free list they return the previous length of the
  slot table and append one entry to it. The free list is a stack: in a well-formed
  container the handle given to \<open>remove\<close> is the one the next \<open>push\<close> returns, unless
  the \<open>remove\<close> emptied the container.
\<close>

theorem push_allocates_handle:
  "(m_FreeIDSlots v = [] \<longrightarrow>
      push v x = Inr (v\<lparr>m_Data := m_Data v @ [x],
                        m_IDs := m_IDs v @ [length (m_Data v)],
                        m_RevIDs := m_RevIDs v @ [ID (length (m_IDs v))]\<rparr>,
                      ID (length (m_IDs v)))) \<and>
   (m_FreeIDSlots v \<noteq> [] \<and> ID_value (last (m_FreeIDSlots v)) < length (m_IDs v) \<longrightarrow>
      push v x = Inr (v\<lparr>m_Data := m_Data v @ [x],
                        m_IDs := (m_IDs v)[ID_value (last (m_FreeIDSlots v)) := length (m_Data v)],
                        m_RevIDs := m_RevIDs v @ [last (m_FreeIDSlots v)],
                        m_FreeIDSlots := butlast (m_FreeIDSlots v)\<rparr>,
                      last (m_FreeIDSlots v))) \<and>
   (m_FreeIDSlots v \<noteq> [] \<and> \<not> ID_value (last (m_FreeIDSlots v)) < length (m_IDs v) \<longrightarrow>
      push v x = Inl OutOfBounds) \<and>
   emplace v x = push v x \<and>
   (wf_Vector u \<and> validID u h \<and> remove u h = Inr v \<and> m_Data v \<noteq> [] \<longrightarrow>
      (\<exists>v'. push v x = Inr (v', h)))"
proof -
  have "\<exists>v'. push v x = Inr (v', h)"
    if a: "wf_Vector u" "validID u h" "remove u h = Inr v" "m_Data v \<noteq> []"
  proof -
    from remove_valid [OF a(1,2)] a(3) have w: "wf_Vector v"
      "length (m_Data v) = length (m_Data u) - 1"
      "m_FreeIDSlots v = (if length (m_Data u) = 1 then [] else m_FreeIDSlots u @ [h])"
      by auto
    from w(2) a(4) have "length (m_Data u) \<noteq> 1" by auto
    with w(3) have f: "m_FreeIDSlots v = m_FreeIDSlots u @ [h]" by simp
    then have ne: "m_FreeIDSlots v \<noteq> []" and l: "last (m_FreeIDSlots v) = h" by simp_all
    from push_recycle [OF ne wf_last_free(1) [OF w(1) ne], of x] l show ?thesis by simp
  qed
  moreover have "m_FreeIDSlots v \<noteq> [] \<Longrightarrow> \<not> ID_value (last (m_FreeIDSlots v)) < length (m_IDs v)
     \<Longrightarrow> push v x = Inl OutOfBounds"
    by (simp add: push_def addID_def Let_def)
  ultimately show ?thesis
    using push_fresh [of v x] push_recycle [of v x] emplace_eq_push [of v x] by blast
qed

theorem push_allocates_handle_witness:
  "push \<lparr>m_KeepOrder = True, m_Data = [''B''], m_IDs = [1, 0], m_RevIDs = [ID 1],
          m_FreeIDSlots = [ID 0]\<rparr> ''C'' =
     Inr (\<lparr>m_KeepOrder = True, m_Data = [''B'', ''C''], m_IDs = [1, 0],
            m_RevIDs = [ID 1, ID 0], m_FreeIDSlots = []\<rparr>, ID 0) \<and>
   push \<lparr>m_KeepOrder = True, m_Data = [''B'', ''C''], m_IDs = [1, 0],
          m_RevIDs = [ID 1, ID 0], m_FreeIDSlots = []\<rparr> ''D'' =
     Inr (\<lparr>m_KeepOrder = True, m_Data = [''B'', ''C'', ''D''], m_IDs = [1, 0, 2],
            m_RevIDs = [ID 1, ID 0, ID 2], m_FreeIDSlots = []\<rparr>, ID 2) \<and>
   push \<lparr>m_KeepOrder = True, m_Data = [''B''], m_IDs = [1, 0], m_RevIDs = [ID 1],
          m_FreeIDSlots = [ID 7]\<rparr> ''C'' = Inl OutOfBounds \<and>
   wf_Vector \<lparr>m_KeepOrder = True, m_Data = [''A'', ''B''], m_IDs = [0, 1],
               m_RevIDs = [ID 0, ID 1], m_FreeIDSlots = []\<rparr> \<and>
   validID \<lparr>m_KeepOrder = True, m_Data = [''A'', ''B''], m_IDs = [0, 1],
               m_RevIDs = [ID 0, ID 1], m_FreeIDSlots = []\<rparr> (ID 0) \<and>
   remove \<lparr>m_KeepOrder = True, m_Data = [''A'', ''B''], m_IDs = [0, 1],
            m_RevIDs = [ID 0, ID 1], m_FreeIDSlots = []\<rparr> (ID 0) =
     Inr \<lparr>m_KeepOrder = True, m_Data = [''B''], m_IDs = [1, 0], m_RevIDs = [ID 1],
          m_FreeIDSlots = [ID 0]\<rparr> \<and>
   (\<exists>w'. push \<lparr>m_KeepOrder = True, m_Data = [''B''], m_IDs = [1, 0], m_RevIDs = [ID 1],
          m_FreeIDSlots = [ID 0]\<rparr> ''C'' = Inr (w', ID 0))"
proof -
  let ?v = "\<lparr>m_KeepOrder = True, m_Data = [''A'', ''B''], m_IDs = [0, 1],
               m_RevIDs = [ID 0, ID 1], m_FreeIDSlots = []\<rparr>"
  let ?w = "\<lparr>m_KeepOrder = True, m_Data = [''B''], m_IDs = [1, 0], m_RevIDs = [ID 1],
          m_FreeIDSlots = [ID 0]\<rparr>"
  let ?u = "\<lparr>m_KeepOrder = True, m_Data = [''B'', ''C''], m_IDs = [1, 0],
          m_RevIDs = [ID 1, ID 0], m_FreeIDSlots = []\<rparr>"
  let ?bad = "\<lparr>m_KeepOrder = True, m_Data = [''B''], m_IDs = [1, 0], m_RevIDs = [ID 1],
          m_FreeIDSlots = [ID 7]\<rparr>"
  have wf: "wf_Vector ?v" by (simp add: wf_Vector_def slots_def upt_conv_Cons)
  have va: "validID ?v (ID 0)" by (simp add: validID_def)
  have rm: "remove ?v (ID 0) = Inr ?w"
    by (simp add: remove_def remove_no_reset_def remove_loop.simps size_sub_def idAt_def
        swapDataLocation_def clear_def)
  from push_allocates_handle [of ?w "''C''" ?v "ID 0"]
    push_allocates_handle [of ?u "''D''"] push_allocates_handle [of ?bad "''C''"] wf va rm
  show ?thesis by simp
qed

text \<open>
  C9. \<open>reserve\<close> leaves the container as it was, whether it returns or throws: the same
  elements, the same size and the same valid handles. The amount it asks for the slot
  table is \<open>numElements\<close> minus the length of the free list, subtracted as \<open>size_t\<close>
  values: with no more free entries than \<open>numElements\<close> it is the difference, and with
  more free entries it is \<open>2 ^ 64 - (length free - numElements)\<close>, the value of the 64-bit
  subtraction. That amount is above \<open>max_size()\<close> of the slot table whenever \<open>max_size()\<close>
  plus the length of the free list is below \<open>2 ^ 64\<close>, and then \<open>reserve\<close> throws
  \<open>std::length_error\<close> at its second call and does not make the third.
\<close>

theorem reserve_request_wraps:
  "container (reserve lim v n) = v \<and>
   (\<forall>h. validID (container (reserve lim v n)) h = validID v h) \<and>
   size_of (container (reserve lim v n)) = size_of v \<and>
   (length (m_FreeIDSlots v) \<le> n \<longrightarrow>
      ids_reserve_request v n = n - length (m_FreeIDSlots v)) \<and>
   (n < length (m_FreeIDSlots v) \<and> length (m_FreeIDSlots v) < 2 ^ 64 \<longrightarrow>
      ids_reserve_request v n = 2 ^ 64 - (length (m_FreeIDSlots v) - n) \<and>
      n < ids_reserve_request v n \<and>
      ids_reserve_request v n =
        unat (word_of_nat n - word_of_nat (length (m_FreeIDSlots v)) :: 64 word)) \<and>
   (n < length (m_FreeIDSlots v) \<and> ids_max_size lim + length (m_FreeIDSlots v) < 2 ^ 64 \<and>
    n \<le> data_max_size lim \<longrightarrow>
      reserve lim v n =
        \<lparr>thrown = Some LengthError,
         requests = [n, 2 ^ 64 - (length (m_FreeIDSlots v) - n)], container = v\<rparr>) \<and>
   (data_max_size lim < n \<longrightarrow>
      reserve lim v n = \<lparr>thrown = Some LengthError, requests = [n], container = v\<rparr>) \<and>
   (n \<le> data_max_size lim \<and> ids_reserve_request v n \<le> ids_max_size lim \<and>
    n \<le> rev_max_size lim \<longrightarrow>
      reserve lim v n =
        \<lparr>thrown = None, requests = [n, ids_reserve_request v n, n], container = v\<rparr>)"
proof -
  have c: "container (reserve lim v n) = v" by (simp add: reserve_def)
  have w: "ids_reserve_request v n =
        unat (word_of_nat n - word_of_nat (length (m_FreeIDSlots v)) :: 64 word)"
    if "n < length (m_FreeIDSlots v)" "length (m_FreeIDSlots v) < 2 ^ 64"
    using that size_sub_word [of n "length (m_FreeIDSlots v)"]
    by (simp add: ids_reserve_request_def)
  have r: "ids_reserve_request v n = 2 ^ 64 - (length (m_FreeIDSlots v) - n)"
    if "n < length (m_FreeIDSlots v)"
    using that by (simp add: ids_reserve_request_def size_sub_def)
  have t: "reserve lim v n =
        \<lparr>thrown = Some LengthError,
         requests = [n, 2 ^ 64 - (length (m_FreeIDSlots v) - n)], container = v\<rparr>"
    if "n < length (m_FreeIDSlots v)" "ids_max_size lim + length (m_FreeIDSlots v) < 2 ^ 64"
      "n \<le> data_max_size lim"
  proof -
    have "ids_max_size lim < 2 ^ 64 - (length (m_FreeIDSlots v) - n)" using that(1,2) by simp
    then show ?thesis using that(3) r [OF that(1)] by (simp add: reserve_def)
  qed
  have l: "n < ids_reserve_request v n"
    if "n < length (m_FreeIDSlots v)" "length (m_FreeIDSlots v) < 2 ^ 64"
    using that r [OF that(1)] by simp
  have d: "ids_reserve_request v n = n - length (m_FreeIDSlots v)"
    if "length (m_FreeIDSlots v) \<le> n"
    using that by (simp add: ids_reserve_request_def size_sub_def)
  have e: "reserve lim v n = \<lparr>thrown = Some LengthError, requests = [n], container = v\<rparr>"
    if "data_max_size lim < n"
    using that by (simp add: reserve_def)
  have f: "reserve lim v n =
        \<lparr>thrown = None, requests = [n, ids_reserve_request v n, n], container = v\<rparr>"
    if "n \<le> data_max_size lim" "ids_reserve_request v n \<le> ids_max_size lim"
      "n \<le> rev_max_size lim"
    using that by (simp add: reserve_def)
  from c w r t l d e f show ?thesis by (simp add: c)
qed

theorem reserve_request_wraps_witness:
  "reserve \<lparr>data_max_size = 2 ^ 58, ids_max_size = 2 ^ 60, rev_max_size = 2 ^ 60\<rparr>
     \<lparr>m_KeepOrder = True, m_Data = [''C''], m_IDs = [2, 1, 0],
      m_RevIDs = [ID 2], m_FreeIDSlots = [ID 0, ID 1]\<rparr> 1 =
     \<lparr>thrown = Some LengthError, requests = [1, 18446744073709551615],
      container = \<lparr>m_KeepOrder = True, m_Data = [''C''], m_IDs = [2, 1, 0],
                   m_RevIDs = [ID 2], m_FreeIDSlots = [ID 0, ID 1]\<rparr>\<rparr> \<and>
   reserve \<lparr>data_max_size = 2 ^ 58, ids_max_size = 2 ^ 60, rev_max_size = 2 ^ 60\<rparr>
     \<lparr>m_KeepOrder = True, m_Data = [''C''], m_IDs = [2, 1, 0],
      m_RevIDs = [ID 2], m_FreeIDSlots = [ID 0, ID 1]\<rparr> 5 =
     \<lparr>thrown = None, requests = [5, 3, 5],
      container = \<lparr>m_KeepOrder = True, m_Data = [''C''], m_IDs = [2, 1, 0],
                   m_RevIDs = [ID 2], m_FreeIDSlots = [ID 0, ID 1]\<rparr>\<rparr> \<and>
   ids_reserve_request \<lparr>m_KeepOrder = True, m_Data = [''C''], m_IDs = [2, 1, 0],
      m_RevIDs = [ID 2], m_FreeIDSlots = [ID 0, ID 1]\<rparr> 1 =
     unat (word_of_nat 1 - word_of_nat 2 :: 64 word) \<and>
   validID (container (reserve \<lparr>data_max_size = 2 ^ 58, ids_max_size = 2 ^ 60, rev_max_size = 2 ^ 60\<rparr>
     \<lparr>m_KeepOrder = True, m_Data = [''C''], m_IDs = [2, 1, 0],
      m_RevIDs = [ID 2], m_FreeIDSlots = [ID 0, ID 1]\<rparr> 1)) (ID 2)"
proof -
  let ?v = "\<lparr>m_KeepOrder = True, m_Data = [''C''], m_IDs = [2, 1, 0],
             m_RevIDs = [ID 2], m_FreeIDSlots = [ID 0, ID 1]\<rparr>"
  let ?lim = "\<lparr>data_max_size = 2 ^ 58, ids_max_size = 2 ^ 60, rev_max_size = 2 ^ 60\<rparr>"
  have a: "validID ?v (ID 2)" by (simp add: validID_def)
  have b: "ids_reserve_request ?v 5 = 3"
    by (simp add: ids_reserve_request_def size_sub_def)
  from reserve_request_wraps [of ?lim ?v 1] reserve_request_wraps [of ?lim ?v 5] a b
  show ?thesis by simp
qed

text \<open>
  C10, as stated, fails for the swap-remove container: there \<open>remove\<close> of a handle that is
  in the slot table and already free reads the dense store at the position the slot
  table has for it, which is past the end; nothing is pushed on the free list. The
  container is the one after \<open>push A, push B, remove h0\<close>.
\<close>

theorem remove_unchecked_counterexample:
  "run [Push ''A'', Push ''B'', Remove (ID 0)] (Vector_new False) =
     Inr ([Returned (ID 0), Returned (ID 1), Removed (ID 0)],
          \<lparr>m_KeepOrder = False, m_Data = [''B''], m_IDs = [1, 0], m_RevIDs = [ID 1],
             m_FreeIDSlots = [ID 0]\<rparr>) \<and>
   ID_value (ID 0) < length (m_IDs \<lparr>m_KeepOrder = False, m_Data = [''B''], m_IDs = [1, 0],
                                     m_RevIDs = [ID 1], m_FreeIDSlots = [ID 0]\<rparr>) \<and>
   ID 0 \<in> set (m_FreeIDSlots \<lparr>m_KeepOrder = False, m_Data = [''B''], m_IDs = [1, 0],
                                m_RevIDs = [ID 1], m_FreeIDSlots = [ID 0]\<rparr>) \<and>
   remove \<lparr>m_KeepOrder = False, m_Data = [''B''], m_IDs = [1, 0], m_RevIDs = [ID 1],
            m_FreeIDSlots = [ID 0]\<rparr> (ID 0) = Inl OutOfBounds"
  by (simp add: Let_def push_def addID_def remove_def remove_no_reset_def
      size_sub_def swapDataLocation_def clear_def Vector_new_def)

text \<open>
  C10, amended. \<open>remove\<close> checks nothing about its handle. Take a container in a state
  that a new container reaches through a sequence of calls in which every \<open>remove\<close> is
  given a handle that is valid at that moment. With a valid handle \<open>remove\<close> returns a
  well-formed container. With a handle outside the slot table it reads the slot table
  out of bounds. With a handle inside the slot table that is already free:
  the swap-remove container reads the dense store out of bounds;
  the order-preserving container with one element drops that element, which belongs to
  another, valid handle, and returns the empty container;
  the order-preserving container with more elements pushes the handle on the free list a
  second time and drops the last element of the dense store and of the reverse table.
  That element belongs to another handle, which stays valid while \<open>get\<close> of it is out of
  bounds; the free list has a duplicate, the container is not well-formed any more, and
  the next \<open>push\<close> returns the removed handle, which is then in the reverse table and
  still on the free list.
\<close>

theorem remove_unchecked:
  assumes "removes_valid cs (Vector_new k)" "run cs (Vector_new k) = Inr (evs, v)"
  shows "(validID v h \<longrightarrow> (\<exists>v'. remove v h = Inr v' \<and> wf_Vector v')) \<and>
         (\<not> ID_value h < length (m_IDs v) \<longrightarrow> remove v h = Inl OutOfBounds) \<and>
         (ID_value h < length (m_IDs v) \<and> h \<in> set (m_FreeIDSlots v) \<and> \<not> m_KeepOrder v \<longrightarrow>
            remove v h = Inl OutOfBounds) \<and>
         (ID_value h < length (m_IDs v) \<and> h \<in> set (m_FreeIDSlots v) \<and> m_KeepOrder v \<and>
          size_of v = 1 \<longrightarrow>
            remove v h = Inr (Vector_new True) \<and>
            validID v (last (m_RevIDs v)) \<and> last (m_RevIDs v) \<noteq> h) \<and>
         (ID_value h < length (m_IDs v) \<and> h \<in> set (m_FreeIDSlots v) \<and> m_KeepOrder v \<and>
          size_of v \<noteq> 1 \<longrightarrow>
            (\<exists>v'. remove v h = Inr v' \<and>
                  v' = v\<lparr>m_FreeIDSlots := m_FreeIDSlots v @ [h],
                         m_Data := butlast (m_Data v), m_RevIDs := butlast (m_RevIDs v)\<rparr> \<and>
                  \<not> distinct (m_FreeIDSlots v') \<and>
                  \<not> wf_Vector v' \<and>
                  validID v' (last (m_RevIDs v)) \<and>
                  get v' (last (m_RevIDs v)) = Inl OutOfBounds \<and>
                  (\<exists>v''. push v' x = Inr (v'', h) \<and>
                         h \<in> set (m_RevIDs v'') \<and> h \<in> set (m_FreeIDSlots v''))))"
proof -
  note w = run_new_order(1) [OF assms]
  have o: "validID v (last (m_RevIDs v)) \<and> last (m_RevIDs v) \<noteq> h"
    if s: "ID_value h < length (m_IDs v)" "h \<in> set (m_FreeIDSlots v)"
  proof -
    note st = wf_stale [OF w s]
    have gl: "last (m_RevIDs v) \<in> set (m_RevIDs v)" using st(2) by simp
    then have "validID v (last (m_RevIDs v))" using w by (simp add: wf_validID_iff)
    moreover have "last (m_RevIDs v) \<noteq> h"
      using wf_distinct_tables(3) [OF w] gl s(2) by blast
    ultimately show ?thesis by simp
  qed
  from remove_unchecked_wf [OF w, of h x] o show ?thesis by blast
qed

theorem remove_unchecked_witness:
  "removes_valid [Push ''A'', Push ''B'', Push ''C'', Remove (ID 0)] (Vector_new True) \<and>
   run [Push ''A'', Push ''B'', Push ''C'', Remove (ID 0)] (Vector_new True) =
     Inr ([Returned (ID 0), Returned (ID 1), Returned (ID 2), Removed (ID 0)],
          \<lparr>m_KeepOrder = True, m_Data = [''B'', ''C''], m_IDs = [2, 0, 1],
             m_RevIDs = [ID 1, ID 2], m_FreeIDSlots = [ID 0]\<rparr>) \<and>
   (\<exists>v'. remove \<lparr>m_KeepOrder = True, m_Data = [''B'', ''C''], m_IDs = [2, 0, 1],
                   m_RevIDs = [ID 1, ID 2], m_FreeIDSlots = [ID 0]\<rparr> (ID 1) = Inr v' \<and>
         wf_Vector v') \<and>
   remove \<lparr>m_KeepOrder = True, m_Data = [''B'', ''C''], m_IDs = [2, 0, 1],
            m_RevIDs = [ID 1, ID 2], m_FreeIDSlots = [ID 0]\<rparr> (ID 3) = Inl OutOfBounds \<and>
   remove \<lparr>m_KeepOrder = True, m_Data = [''B'', ''C''], m_IDs = [2, 0, 1],
            m_RevIDs = [ID 1, ID 2], m_FreeIDSlots = [ID 0]\<rparr> (ID 0) =
     Inr \<lparr>m_KeepOrder = True, m_Data = [''B''], m_IDs = [2, 0, 1],
          m_RevIDs = [ID 1], m_FreeIDSlots = [ID 0, ID 0]\<rparr> \<and>
   validID \<lparr>m_KeepOrder = True, m_Data = [''B''], m_IDs = [2, 0, 1],
             m_RevIDs = [ID 1], m_FreeIDSlots = [ID 0, ID 0]\<rparr> (ID 2) \<and>
   get \<lparr>m_KeepOrder = True, m_Data = [''B''], m_IDs = [2, 0, 1],
         m_RevIDs = [ID 1], m_FreeIDSlots = [ID 0, ID 0]\<rparr> (ID 2) = Inl OutOfBounds \<and>
   \<not> wf_Vector \<lparr>m_KeepOrder = True, m_Data = [''B''], m_IDs = [2, 0, 1],
                 m_RevIDs = [ID 1], m_FreeIDSlots = [ID 0, ID 0]\<rparr>"
proof -
  let ?v = "\<lparr>m_KeepOrder = True, m_Data = [''B'', ''C''], m_IDs = [2, 0, 1],
               m_RevIDs = [ID 1, ID 2], m_FreeIDSlots = [ID 0]\<rparr>"
  let ?cs = "[Push ''A'', Push ''B'', Push ''C'', Remove (ID 0)]"
  have c: "removes_valid ?cs (Vector_new True)"
    by (simp add: Let_def push_def addID_def remove_def remove_no_reset_def remove_loop.simps
        size_sub_def idAt_def swapDataLocation_def clear_def Vector_new_def validID_def)
  have r: "run ?cs (Vector_new True) =
     Inr ([Returned (ID 0), Returned (ID 1), Returned (ID 2), Removed (ID 0)], ?v)"
    by (simp add: Let_def push_def addID_def remove_def remove_no_reset_def remove_loop.simps
        size_sub_def idAt_def swapDataLocation_def clear_def Vector_new_def)
  have a: "validID ?v (ID 1)" "size_of ?v \<noteq> 1" by (simp_all add: validID_def size_of_def)
  from remove_unchecked [OF c r, of "ID 1"] remove_unchecked [OF c r, of "ID 3"]
    remove_unchecked [OF c r, of "ID 0" "''D''"] c r a
  show ?thesis by simp
qed

end
